theory Spec2Isabelle
  imports Complex_Main "HOL-Library.Char_ord" "HOL-Library.List_Lexorder"
begin

section \<open>Characters, strings and the string stream\<close>

text \<open>
  A \<^verbatim>\<open>std::string\<close> is a list of bytes. The two characters the line-oriented
  parsers look for are carriage return and line feed.
\<close>

definition CR :: char where
  "CR = CHR 0x0D"

definition LF :: char where
  "LF = CHR 0x0A"

definition NUL :: char where
  "NUL = CHR 0x00"

text \<open>
  \<^verbatim>\<open>std::istringstream\<close>: the characters not yet extracted and whether the stream is
  still \<^verbatim>\<open>good()\<close>. Once \<^verbatim>\<open>eofbit\<close> or \<^verbatim>\<open>failbit\<close> is set nothing in this
  code clears it, and every later extraction fails at its sentry.
\<close>

record istringstream =
  buf :: string
  good :: bool

definition istringstream_of :: "string \<Rightarrow> istringstream" where
  "istringstream_of data = \<lparr>buf = data, good = True\<rparr>"

text \<open>
  \<^verbatim>\<open>std::getline(stream, line)\<close>. The result is \<open>None\<close> when the call leaves the
  stream failed (the \<^verbatim>\<open>while\<close> condition is then false), and \<open>Some line\<close> with
  the extracted line otherwise. Characters are extracted up to the first line feed,
  which is consumed and not stored. Reaching the end of the data sets \<^verbatim>\<open>eofbit\<close>;
  the call fails only if no character at all was extracted. No caller reads the line
  after a failed call.
\<close>

definition getline :: "istringstream \<Rightarrow> string option \<times> istringstream" where
  "getline s =
     (if \<not> good s then (None, s)
      else
        (let pre = takeWhile (\<lambda>c. c \<noteq> LF) (buf s);
             post = dropWhile (\<lambda>c. c \<noteq> LF) (buf s)
         in case post of
              [] \<Rightarrow> (if pre = [] then None else Some pre, \<lparr>buf = [], good = False\<rparr>)
            | _ # post' \<Rightarrow> (Some pre, \<lparr>buf = post', good = True\<rparr>)))"

text \<open>
  \<^verbatim>\<open>stream.read(&chunk_data[0], n)\<close> into a buffer of \<open>n\<close> NUL characters: the
  buffer after the call. A short read leaves the tail of the buffer as it was and fails
  the stream.
\<close>

definition stream_read :: "istringstream \<Rightarrow> nat \<Rightarrow> string \<times> istringstream" where
  "stream_read s n =
     (if \<not> good s then (replicate n NUL, s)
      else if n \<le> length (buf s) then (take n (buf s), \<lparr>buf = drop n (buf s), good = True\<rparr>)
      else (buf s @ replicate (n - length (buf s)) NUL, \<lparr>buf = [], good = False\<rparr>))"

definition stream_measure :: "istringstream \<Rightarrow> nat" where
  "stream_measure s = length (buf s) + (if good s then 1 else 0)"

section \<open>Chunked transfer decoding\<close>

text \<open>
  The platform constants the decoder depends on: the largest \<^verbatim>\<open>unsigned long\<close>
  and the largest string the library will build (\<^verbatim>\<open>std::string::max_size()\<close>, or
  less when memory runs out earlier).
\<close>

record platform =
  ulong_max :: nat
  string_max_size :: nat

text \<open>A 64-bit platform with the GNU C++ library.\<close>

definition lp64 :: platform where
  "lp64 = \<lparr>ulong_max = 2 ^ 64 - 1, string_max_size = 2 ^ 62 - 1\<rparr>"

definition hex_val :: "char \<Rightarrow> nat option" where
  "hex_val c =
     (let n = (of_char c :: nat) in
      if 48 \<le> n \<and> n \<le> 57 then Some (n - 48)
      else if 97 \<le> n \<and> n \<le> 102 then Some (n - 87)
      else if 65 \<le> n \<and> n \<le> 70 then Some (n - 55)
      else None)"

definition is_hex :: "char \<Rightarrow> bool" where
  "is_hex c = (hex_val c \<noteq> None)"

definition isspace :: "char \<Rightarrow> bool" where
  "isspace c = (let n = (of_char c :: nat) in n = 32 \<or> (9 \<le> n \<and> n \<le> 13))"

definition hex_value :: "string \<Rightarrow> nat" where
  "hex_value ds = foldl (\<lambda>a c. 16 * a + the (hex_val c)) 0 ds"

text \<open>The optional \<^verbatim>\<open>0x\<close> prefix of base 16, taken only before a hex digit.\<close>

fun strip_0x :: "string \<Rightarrow> string" where
  "strip_0x (c0 # cx # h # t) =
     (if c0 = CHR ''0'' \<and> (cx = CHR ''x'' \<or> cx = CHR ''X'') \<and> is_hex h then h # t
      else c0 # cx # h # t)"
| "strip_0x s = s"

text \<open>
  \<^verbatim>\<open>std::stoul(line, nullptr, 16)\<close>: \<open>None\<close> when it throws
  (\<^verbatim>\<open>invalid_argument\<close> without a digit, \<^verbatim>\<open>out_of_range\<close> beyond
  \<^verbatim>\<open>unsigned long\<close>). Leading white space is skipped, a sign is accepted, and a
  minus sign negates the value modulo the word size, as \<^verbatim>\<open>strtoul\<close> does.
\<close>

definition stoul16 :: "platform \<Rightarrow> string \<Rightarrow> nat option" where
  "stoul16 P line =
     (let s0 = dropWhile isspace line;
          neg = (s0 \<noteq> [] \<and> hd s0 = CHR ''-'');
          s1 = (if s0 \<noteq> [] \<and> (hd s0 = CHR ''-'' \<or> hd s0 = CHR ''+'') then tl s0 else s0);
          ds = takeWhile is_hex (strip_0x s1);
          v = hex_value ds
      in if ds = [] then None
         else if v > ulong_max P then None
         else if neg \<and> v \<noteq> 0 then Some (ulong_max P + 1 - v)
         else Some v)"

text \<open>
  What a call of \<^verbatim>\<open>decode_chunked\<close> can do besides returning: read
  \<^verbatim>\<open>line.back()\<close> of an empty string (undefined behaviour), or leave through an
  exception of the string library that nothing catches.
\<close>

datatype decode_failure = BackOfEmptyString | LengthError

function decode_loop :: "platform \<Rightarrow> istringstream \<Rightarrow> string \<Rightarrow> decode_failure + string" where
  "decode_loop P s result =
     (case getline s of
        (None, _) \<Rightarrow> Inr result
      | (Some line0, s1) \<Rightarrow>
          if line0 = [] then Inl BackOfEmptyString
          else
            (let line = (if last line0 = CR then butlast line0 else line0)
             in if line = [] then decode_loop P s1 result
                else
                  (case stoul16 P line of
                     None \<Rightarrow> Inr result
                   | Some chunk_size \<Rightarrow>
                       if chunk_size = 0 then Inr result
                       else if chunk_size > string_max_size P then Inl LengthError
                       else
                         (case stream_read s1 chunk_size of
                            (chunk_data, s2) \<Rightarrow>
                              if length result + chunk_size > string_max_size P
                              then Inl LengthError
                              else decode_loop P (snd (getline s2)) (result @ chunk_data)))))"
  by pat_completeness auto

lemma break_length: "length (takeWhile p xs) + length (dropWhile p xs) = length xs"
  by (metis length_append takeWhile_dropWhile_id)

lemma getline_measure_some:
  "getline s = (Some l, s1) \<Longrightarrow> stream_measure s1 < stream_measure s"
  using break_length [of "\<lambda>c. c \<noteq> LF" "buf s"]
  by (auto simp: getline_def stream_measure_def Let_def split: if_splits list.splits)

lemma getline_measure_le:
  "stream_measure (snd (getline s)) \<le> stream_measure s"
  using break_length [of "\<lambda>c. c \<noteq> LF" "buf s"]
  by (auto simp: getline_def stream_measure_def Let_def split: if_splits list.splits)

lemma stream_read_measure_le:
  "stream_read s n = (d, s2) \<Longrightarrow> stream_measure s2 \<le> stream_measure s"
  by (auto simp: stream_read_def stream_measure_def split: if_splits)

termination decode_loop
proof (relation "measure (\<lambda>(P, s, result). stream_measure s)", goal_cases)
  case 1
  show ?case by simp
next
  case (2 P s result x1 s1 line0 line)
  then show ?case
    using getline_measure_some [of s line0 s1] by simp
next
  case (3 P s result x1 s1 line0 line chunk_size x y)
  have "stream_measure (snd (getline y)) \<le> stream_measure y"
    by (rule getline_measure_le)
  moreover have "stream_measure y \<le> stream_measure s1"
    using 3 stream_read_measure_le [of s1 chunk_size x y] by simp
  moreover have "stream_measure s1 < stream_measure s"
    using 3 getline_measure_some [of s line0 s1] by simp
  ultimately show ?case by simp
qed

definition decode_chunked :: "platform \<Rightarrow> string \<Rightarrow> decode_failure + string" where
  "decode_chunked P data = decode_loop P (istringstream_of data) []"

section \<open>Ordered maps\<close>

text \<open>
  \<^verbatim>\<open>std::map<std::string, std::string>\<close> is kept as the list of its entries in
  iteration order, that is with strictly increasing keys; strings compare as
  \<^verbatim>\<open>std::string\<close> does, byte by byte and shorter first. \<open>map_assign\<close> is
  \<^verbatim>\<open>m[key] = value\<close> and \<open>map_find\<close> is \<^verbatim>\<open>m.find(key)\<close>.
\<close>

type_synonym ('k, 'v) std_map = "('k \<times> 'v) list"

definition map_inv :: "('k::linorder, 'v) std_map \<Rightarrow> bool" where
  "map_inv m = sorted_wrt (<) (map fst m)"

fun map_assign :: "'k::linorder \<Rightarrow> 'v \<Rightarrow> ('k, 'v) std_map \<Rightarrow> ('k, 'v) std_map" where
  "map_assign k v [] = [(k, v)]"
| "map_assign k v ((k', v') # m) =
     (if k < k' then (k, v) # (k', v') # m
      else if k = k' then (k, v) # m
      else (k', v') # map_assign k v m)"

fun map_find :: "('k::linorder, 'v) std_map \<Rightarrow> 'k \<Rightarrow> 'v option" where
  "map_find [] k = None"
| "map_find ((k', v') # m) k = (if k = k' then Some v' else map_find m k)"

section \<open>Server-sent events\<close>

text \<open>
  \<^verbatim>\<open>struct SseEvent\<close>; the fields \<^verbatim>\<open>type\<close>, \<^verbatim>\<open>data\<close>, \<^verbatim>\<open>id\<close>,
  \<^verbatim>\<open>retry\<close> and \<^verbatim>\<open>fields\<close> carry the prefix \<open>ev_\<close> here.
\<close>

record SseEvent =
  ev_type :: string
  ev_data :: string
  ev_id :: string
  ev_retry :: string
  ev_fields :: "(string, string) std_map"

definition SseEvent_init :: SseEvent where
  "SseEvent_init = \<lparr>ev_type = [], ev_data = [], ev_id = [], ev_retry = [], ev_fields = []\<rparr>"

text \<open>\<^verbatim>\<open>SseEvent::empty()\<close>\<close>

definition empty_event :: "SseEvent \<Rightarrow> bool" where
  "empty_event e = (ev_data e = [] \<and> ev_type e = [] \<and> ev_id e = [])"

text \<open>The trailing carriage return is removed from a line that has one.\<close>

definition strip_cr :: "string \<Rightarrow> string" where
  "strip_cr line = (if line \<noteq> [] \<and> last line = CR then butlast line else line)"

text \<open>
  The loop that appends the data lines to \<^verbatim>\<open>current_event.data\<close>, a line feed
  before every line but the first.
\<close>

fun append_data_lines :: "string \<Rightarrow> nat \<Rightarrow> string list \<Rightarrow> string" where
  "append_data_lines d i [] = d"
| "append_data_lines d i (l # ls) =
     append_data_lines ((if i > 0 then d @ [LF] else d) @ l) (i + 1) ls"

text \<open>
  Field and value of a line: split at the first colon, one leading space of the value
  dropped; a line without a colon is a field with the empty value.
\<close>

definition split_field :: "string \<Rightarrow> string \<times> string" where
  "split_field line =
     (case dropWhile (\<lambda>c. c \<noteq> CHR '':'') line of
        [] \<Rightarrow> (line, [])
      | _ # v \<Rightarrow>
          (takeWhile (\<lambda>c. c \<noteq> CHR '':'') line,
           if v \<noteq> [] \<and> hd v = CHR '' '' then tl v else v))"

text \<open>The parser state: the event being built, its data lines, the events dispatched.\<close>

type_synonym sse_state = "SseEvent \<times> string list \<times> SseEvent list"

text \<open>\<^verbatim>\<open>parse_sse_line\<close>, the three reference parameters returned updated.\<close>

definition parse_sse_line :: "string \<Rightarrow> sse_state \<Rightarrow> sse_state" where
  "parse_sse_line line st =
     (case st of (current_event, data_lines, events) \<Rightarrow>
        (let processed_line =
               (if line \<noteq> [] \<and> last line = CR then butlast line else line)
         in if processed_line = [] then
              (if data_lines \<noteq> [] \<or> ev_type current_event \<noteq> [] \<or>
                  ev_id current_event \<noteq> [] \<or> ev_retry current_event \<noteq> []
               then
                 (let ev = current_event
                        \<lparr>ev_data := append_data_lines (ev_data current_event) 0 data_lines\<rparr>
                  in (SseEvent_init, [],
                      if \<not> empty_event ev then events @ [ev] else events))
               else (current_event, data_lines, events))
            else if hd processed_line = CHR '':'' then (current_event, data_lines, events)
            else
              (case split_field processed_line of
                 (field, val) \<Rightarrow>
                   if field = ''event'' then
                     (current_event\<lparr>ev_type := val\<rparr>, data_lines, events)
                   else if field = ''data'' then
                     (current_event, data_lines @ [val], events)
                   else if field = ''id'' then
                     (current_event\<lparr>ev_id := val\<rparr>, data_lines, events)
                   else if field = ''retry'' then
                     (current_event\<lparr>ev_retry := val\<rparr>, data_lines, events)
                   else
                     (current_event
                        \<lparr>ev_fields := map_assign field val (ev_fields current_event)\<rparr>,
                      data_lines, events))))"

text \<open>The \<^verbatim>\<open>while (std::getline(stream, line))\<close> loop of \<^verbatim>\<open>parse_sse_stream\<close>.\<close>

function sse_loop ::
  "istringstream \<Rightarrow> SseEvent \<Rightarrow> string list \<Rightarrow> SseEvent list \<Rightarrow> sse_state" where
  "sse_loop s current_event data_lines events =
     (case getline s of
        (None, _) \<Rightarrow> (current_event, data_lines, events)
      | (Some line0, s1) \<Rightarrow>
          (let line = strip_cr line0
           in if line = [] then
                (if data_lines \<noteq> [] \<or> ev_type current_event \<noteq> [] \<or>
                    ev_id current_event \<noteq> [] \<or> ev_retry current_event \<noteq> []
                 then
                   sse_loop s1 SseEvent_init []
                     (if \<not> empty_event (current_event
                            \<lparr>ev_data := append_data_lines (ev_data current_event) 0 data_lines\<rparr>)
                      then events @ [current_event
                            \<lparr>ev_data := append_data_lines (ev_data current_event) 0 data_lines\<rparr>]
                      else events)
                 else sse_loop s1 current_event data_lines events)
              else if hd line = CHR '':'' then sse_loop s1 current_event data_lines events
              else if fst (split_field line) = ''event'' then
                sse_loop s1 (current_event\<lparr>ev_type := snd (split_field line)\<rparr>) data_lines events
              else if fst (split_field line) = ''data'' then
                sse_loop s1 current_event (data_lines @ [snd (split_field line)]) events
              else if fst (split_field line) = ''id'' then
                sse_loop s1 (current_event\<lparr>ev_id := snd (split_field line)\<rparr>) data_lines events
              else if fst (split_field line) = ''retry'' then
                sse_loop s1 (current_event\<lparr>ev_retry := snd (split_field line)\<rparr>) data_lines events
              else
                sse_loop s1
                  (current_event\<lparr>ev_fields :=
                     map_assign (fst (split_field line)) (snd (split_field line))
                       (ev_fields current_event)\<rparr>)
                  data_lines events))"
  by pat_completeness auto

termination sse_loop
  by (relation "measure (\<lambda>(s, current_event, data_lines, events). stream_measure s)")
     (auto dest: getline_measure_some [OF sym])

text \<open>
  \<^verbatim>\<open>parse_sse_stream\<close>: the loop, then the last event when the stream does not end
  with a blank line.
\<close>

definition parse_sse_stream :: "string \<Rightarrow> SseEvent list" where
  "parse_sse_stream stream_data =
     (case sse_loop (istringstream_of stream_data) SseEvent_init [] [] of
        (current_event, data_lines, events) \<Rightarrow>
          if data_lines \<noteq> [] \<or> ev_type current_event \<noteq> [] \<or>
             ev_id current_event \<noteq> [] \<or> ev_retry current_event \<noteq> []
          then
            (let ev = current_event
                   \<lparr>ev_data := append_data_lines (ev_data current_event) 0 data_lines\<rparr>
             in if \<not> empty_event ev then events @ [ev] else events)
          else events)"

text \<open>
  Line-at-a-time use of \<^verbatim>\<open>parse_sse_line\<close>: the lines \<^verbatim>\<open>std::getline\<close> cuts a
  stream into, fed in order to the incremental parser from its initial state.
\<close>

function stream_lines :: "istringstream \<Rightarrow> string list" where
  "stream_lines s =
     (case getline s of
        (None, _) \<Rightarrow> []
      | (Some line, s1) \<Rightarrow> line # stream_lines s1)"
  by pat_completeness auto

termination stream_lines
  by (relation "measure stream_measure") (auto dest: getline_measure_some [OF sym])

definition feed_lines :: "string list \<Rightarrow> sse_state \<Rightarrow> sse_state" where
  "feed_lines ls st = fold parse_sse_line ls st"

definition parse_sse_incremental :: "string \<Rightarrow> SseEvent list" where
  "parse_sse_incremental stream_data =
     snd (snd (feed_lines (stream_lines (istringstream_of stream_data)) (SseEvent_init, [], [])))"

text \<open>The guard under which a blank line or the end of the stream dispatches.\<close>

definition sse_pending :: "sse_state \<Rightarrow> bool" where
  "sse_pending st =
     (case st of (current_event, data_lines, events) \<Rightarrow>
        data_lines \<noteq> [] \<or> ev_type current_event \<noteq> [] \<or>
        ev_id current_event \<noteq> [] \<or> ev_retry current_event \<noteq> [])"

section \<open>Retry policy\<close>

text \<open>
  The exceptions the client throws are \<^verbatim>\<open>std::runtime_error\<close> with a fixed text and
  \<^verbatim>\<open>std::system_error\<close> with the text of its error code. The constructor is the class
  of the exception, the argument what \<^verbatim>\<open>what()\<close> returns.
\<close>

datatype exception = RuntimeError string | SystemError string

fun what :: "exception \<Rightarrow> string" where
  "what (RuntimeError msg) = msg"
| "what (SystemError msg) = msg"

text \<open>
  \<^verbatim>\<open>std::string::find\<close>: the position of the first occurrence of the pattern, \<open>None\<close>
  for \<^verbatim>\<open>npos\<close>.
\<close>

fun str_find :: "string \<Rightarrow> string \<Rightarrow> nat option" where
  "str_find [] pat = (if pat = [] then Some 0 else None)"
| "str_find (c # cs) pat =
     (if take (length pat) (c # cs) = pat then Some 0
      else map_option Suc (str_find cs pat))"

text \<open>
  \<^verbatim>\<open>class RetryPolicy\<close>. Delays are counts of milliseconds; the backoff factor
  is the real number its \<^verbatim>\<open>double\<close> denotes.
\<close>

record RetryPolicy =
  max_retries :: int
  initial_delay :: int
  backoff_factor :: real
  max_delay :: int
  retry_on_timeout :: bool
  retry_on_connection_error :: bool
  retry_on_5xx :: bool
  current_attempt :: int

definition should_retry :: "RetryPolicy \<Rightarrow> exception \<Rightarrow> int \<Rightarrow> bool" where
  "should_retry p e status_code =
     (if current_attempt p \<ge> max_retries p then False
      else
        (let error_msg = what e
         in if retry_on_timeout p \<and>
               (str_find error_msg ''timeout'' \<noteq> None \<or>
                str_find error_msg ''Timeout'' \<noteq> None \<or>
                str_find error_msg ''timed out'' \<noteq> None) then True
            else if retry_on_connection_error p \<and>
               (str_find error_msg ''Connection'' \<noteq> None \<or>
                str_find error_msg ''connection'' \<noteq> None \<or>
                str_find error_msg ''refused'' \<noteq> None \<or>
                str_find error_msg ''reset'' \<noteq> None \<or>
                str_find error_msg ''broken pipe'' \<noteq> None \<or>
                str_find error_msg ''network'' \<noteq> None) then True
            else if retry_on_5xx p \<and> status_code \<ge> 500 \<and> status_code < 600 then True
            else False))"

text \<open>
  The \<^verbatim>\<open>double\<close> operations \<^verbatim>\<open>get_delay\<close> performs: the conversion of a
  \<^verbatim>\<open>long long\<close>, \<^verbatim>\<open>std::pow\<close> with an \<^verbatim>\<open>int\<close> exponent, and the product.
  A \<^verbatim>\<open>double\<close> is kept as the real number it denotes. The operations round, and how
  they round belongs to the machine and its mathematical library, so they are parameters
  of the model.
\<close>

record double_arith =
  of_long_long :: "int \<Rightarrow> real"
  dpow :: "real \<Rightarrow> int \<Rightarrow> real"
  dmul :: "real \<Rightarrow> real \<Rightarrow> real"

text \<open>
  \<^verbatim>\<open>static_cast<long long>\<close> of a \<^verbatim>\<open>double\<close>: the fraction is discarded. When
  the result does not fit a \<^verbatim>\<open>long long\<close> the behaviour is undefined: \<open>None\<close>.
\<close>

definition to_long_long :: "real \<Rightarrow> int option" where
  "to_long_long x =
     (if - (2 ^ 63) - 1 < x \<and> x < 2 ^ 63 then Some (if 0 \<le> x then \<lfloor>x\<rfloor> else \<lceil>x\<rceil>)
      else None)"

text \<open>
  \<^verbatim>\<open>get_delay\<close>. The value drawn from \<^verbatim>\<open>uniform_real_distribution(0.75, 1.25)\<close> is
  the argument \<open>jitter\<close>. The result is \<open>None\<close> when the cast is undefined.
\<close>

definition get_delay :: "double_arith \<Rightarrow> RetryPolicy \<Rightarrow> real \<Rightarrow> int option" where
  "get_delay D p jitter =
     (if current_attempt p = 0 then Some (initial_delay p)
      else
        (let base_delay = dmul D (of_long_long D (initial_delay p))
                            (dpow D (backoff_factor p) (current_attempt p))
         in case to_long_long (dmul D base_delay jitter) of
              None \<Rightarrow> None
            | Some delay \<Rightarrow> Some (if delay > max_delay p then max_delay p else delay)))"

definition increment_attempt :: "RetryPolicy \<Rightarrow> RetryPolicy" where
  "increment_attempt p = p\<lparr>current_attempt := current_attempt p + 1\<rparr>"

section \<open>Requests and responses\<close>

datatype HttpMethod = GET | POST | PUT | DELETE | HEAD | PATCH | OPTIONS

text \<open>
  \<^verbatim>\<open>std::tolower\<close> in the C locale, where the letters A to Z are mapped and every
  other byte is left as it is, and \<^verbatim>\<open>strcasecmp_impl\<close>: equal sizes and
  \<^verbatim>\<open>std::equal\<close> under lower-casing.
\<close>

definition tolower :: "char \<Rightarrow> char" where
  "tolower c =
     (let n = (of_char c :: nat) in if 65 \<le> n \<and> n \<le> 90 then char_of (n + 32) else c)"

definition strcasecmp_impl :: "string \<Rightarrow> string \<Rightarrow> bool" where
  "strcasecmp_impl a b =
     (length a = length b \<and> list_all2 (\<lambda>ca cb. tolower ca = tolower cb) a b)"

text \<open>
  \<^verbatim>\<open>class HttpResponse\<close>; the members \<^verbatim>\<open>headers_\<close> and \<^verbatim>\<open>body_\<close> are
  \<open>resp_headers\<close> and \<open>resp_body\<close>.
\<close>

record HttpResponse =
  status_code :: int
  reason :: string
  resp_headers :: "(string, string) std_map"
  resp_body :: string
  redirect_chain :: "string list"

definition HttpResponse_init :: HttpResponse where
  "HttpResponse_init =
     \<lparr>status_code = 0, reason = [], resp_headers = [], resp_body = [], redirect_chain = []\<rparr>"

definition add_header :: "string \<Rightarrow> string \<Rightarrow> HttpResponse \<Rightarrow> HttpResponse" where
  "add_header key val r = r\<lparr>resp_headers := map_assign key val (resp_headers r)\<rparr>"

definition add_redirect :: "string \<Rightarrow> HttpResponse \<Rightarrow> HttpResponse" where
  "add_redirect u r = r\<lparr>redirect_chain := redirect_chain r @ [u]\<rparr>"

text \<open>
  \<^verbatim>\<open>HttpResponse::get_header\<close>: the exact key first, then the first entry in
  iteration order whose key is equal up to case, then the empty string.
\<close>

definition get_header :: "HttpResponse \<Rightarrow> string \<Rightarrow> string" where
  "get_header r key =
     (case map_find (resp_headers r) key of
        Some v \<Rightarrow> v
      | None \<Rightarrow>
          (case find (\<lambda>(k, v). strcasecmp_impl k key) (resp_headers r) of
             Some (k, v) \<Rightarrow> v
           | None \<Rightarrow> []))"

text \<open>
  Modelled from the spec: \<^verbatim>\<open>class HttpRequest\<close> (\<^verbatim>\<open>http_request.hpp\<close> is not
  among the sources). A request has a method, an absolute URL, a mapping of header
  names to values and a body; \<^verbatim>\<open>add_header\<close> stores into the mapping as the one of
  the response does, and a request built from a method and a URL has no header and an
  empty body.
\<close>

record HttpRequest =
  req_method :: HttpMethod
  req_url :: string
  req_headers :: "(string, string) std_map"
  req_body :: string

definition HttpRequest_new :: "HttpMethod \<Rightarrow> string \<Rightarrow> HttpRequest" where
  "HttpRequest_new m u = \<lparr>req_method = m, req_url = u, req_headers = [], req_body = []\<rparr>"

definition req_add_header :: "string \<Rightarrow> string \<Rightarrow> HttpRequest \<Rightarrow> HttpRequest" where
  "req_add_header key val r = r\<lparr>req_headers := map_assign key val (req_headers r)\<rparr>"

text \<open>
  Modelled from the spec: \<^verbatim>\<open>struct UrlInfo\<close> (\<^verbatim>\<open>url_parser.hpp\<close> is not among the
  sources), with the members the client reads.
\<close>

record UrlInfo =
  scheme :: string
  host :: string
  port :: string
  path :: string
  is_https :: bool

text \<open>
  Modelled from the spec: \<^verbatim>\<open>struct ClientConfig\<close> (\<^verbatim>\<open>client_config.hpp\<close> is not
  among the sources), with the two options the redirect loop reads and the pool size
  the specification names.
\<close>

record ClientConfig =
  follow_redirects :: bool
  max_redirects :: int
  max_connections_per_host :: nat

section \<open>The request executor\<close>

text \<open>
  What lies outside the client: \<^verbatim>\<open>parse_url\<close> (not among the sources), name
  resolution, and the exchange on a connected socket (connect, TLS handshake, writing
  \<^verbatim>\<open>build_request\<close>, reading, \<^verbatim>\<open>parse_response\<close>). Each may throw. The network and
  the servers have a state of their own, \<open>'w\<close>.
\<close>

record 'w network =
  parse_url :: "string \<Rightarrow> exception + UrlInfo"
  resolve :: "'w \<Rightarrow> UrlInfo \<Rightarrow> exception option \<times> 'w"
  exchange :: "'w \<Rightarrow> HttpRequest \<Rightarrow> UrlInfo \<Rightarrow> (exception + HttpResponse) \<times> 'w"

text \<open>The client's run so far: the outside world and the number of sockets constructed.\<close>

record 'w client_state =
  world :: 'w
  sockets_opened :: nat

text \<open>
  \<^verbatim>\<open>execute_http\<close> and \<^verbatim>\<open>execute_https\<close>: resolve the host, construct a socket,
  run the exchange on it. The socket is a local variable of the call.
\<close>

definition execute_http ::
  "'w network \<Rightarrow> 'w client_state \<Rightarrow> HttpRequest \<Rightarrow> UrlInfo \<Rightarrow>
     (exception + HttpResponse) \<times> 'w client_state" where
  "execute_http net st request url_info =
     (case resolve net (world st) url_info of
        (Some e, w1) \<Rightarrow> (Inl e, st\<lparr>world := w1\<rparr>)
      | (None, w1) \<Rightarrow>
          (case exchange net w1 request url_info of
             (r, w2) \<Rightarrow> (r, \<lparr>world = w2, sockets_opened = sockets_opened st + 1\<rparr>)))"

definition execute_https ::
  "'w network \<Rightarrow> 'w client_state \<Rightarrow> HttpRequest \<Rightarrow> UrlInfo \<Rightarrow>
     (exception + HttpResponse) \<times> 'w client_state" where
  "execute_https net st request url_info =
     (case resolve net (world st) url_info of
        (Some e, w1) \<Rightarrow> (Inl e, st\<lparr>world := w1\<rparr>)
      | (None, w1) \<Rightarrow>
          (case exchange net w1 request url_info of
             (r, w2) \<Rightarrow> (r, \<lparr>world = w2, sockets_opened = sockets_opened st + 1\<rparr>)))"

text \<open>
  The request that follows a redirect: a path-only \<^verbatim>\<open>Location\<close> is completed with
  the current origin, the method is \<^verbatim>\<open>HttpMethod::GET\<close>, and the headers of the
  original request are added one by one.
\<close>

definition redirect_location :: "UrlInfo \<Rightarrow> string \<Rightarrow> string" where
  "redirect_location url_info location =
     (if hd location = CHR ''/'' then
        scheme url_info @ ''://'' @ host url_info @
        (if port url_info \<noteq> (if is_https url_info then ''443'' else ''80'')
         then '':'' @ port url_info else []) @
        location
      else location)"

definition redirect_request :: "HttpRequest \<Rightarrow> string \<Rightarrow> HttpRequest" where
  "redirect_request request location =
     fold (\<lambda>(key, val). req_add_header key val) (req_headers request)
       (HttpRequest_new GET location)"

text \<open>\<^verbatim>\<open>execute_with_redirects\<close>; the coroutine \<^verbatim>\<open>co_execute_with_redirects\<close> has the same body.\<close>

function execute_with_redirects ::
  "ClientConfig \<Rightarrow> 'w network \<Rightarrow> 'w client_state \<Rightarrow> HttpRequest \<Rightarrow> int \<Rightarrow>
     (exception + HttpResponse) \<times> 'w client_state" where
  "execute_with_redirects config net st request redirect_count =
     (case parse_url net (req_url request) of
        Inl e \<Rightarrow> (Inl e, st)
      | Inr url_info \<Rightarrow>
          (case (if is_https url_info then execute_https net st request url_info
                 else execute_http net st request url_info) of
             (Inl e, st1) \<Rightarrow> (Inl e, st1)
           | (Inr response, st1) \<Rightarrow>
               if follow_redirects config \<and> redirect_count < max_redirects config \<and>
                  (status_code response \<ge> 300 \<and> status_code response < 400)
               then
                 (if get_header response ''Location'' \<noteq> [] then
                    (case execute_with_redirects config net st1
                            (redirect_request request
                               (redirect_location url_info (get_header response ''Location'')))
                            (redirect_count + 1) of
                       (Inl e, st2) \<Rightarrow> (Inl e, st2)
                     | (Inr redirect_resp, st2) \<Rightarrow>
                         (Inr (fold add_redirect
                                 (redirect_chain
                                    (add_redirect (get_header response ''Location'') response))
                                 redirect_resp),
                          st2))
                  else (Inr response, st1))
               else (Inr response, st1)))"
  by pat_completeness auto

termination execute_with_redirects
  by (relation "measure (\<lambda>(config, net, st, request, redirect_count).
                  nat (max_redirects config - redirect_count))") auto

definition execute ::
  "ClientConfig \<Rightarrow> 'w network \<Rightarrow> 'w client_state \<Rightarrow> HttpRequest \<Rightarrow>
     (exception + HttpResponse) \<times> 'w client_state" where
  "execute config net st request = execute_with_redirects config net st request 0"

text \<open>Requests issued one after the other by the same client; an exception ends one request only.\<close>

fun execute_all ::
  "ClientConfig \<Rightarrow> 'w network \<Rightarrow> 'w client_state \<Rightarrow> HttpRequest list \<Rightarrow>
     (exception + HttpResponse) list \<times> 'w client_state" where
  "execute_all config net st [] = ([], st)"
| "execute_all config net st (request # requests) =
     (case execute config net st request of
        (r, st1) \<Rightarrow>
          (case execute_all config net st1 requests of
             (rs, st2) \<Rightarrow> (r # rs, st2)))"

section \<open>Vocabulary of the properties\<close>

text \<open>A message mentions a word when the word occurs in it.\<close>

definition mentions :: "string \<Rightarrow> string \<Rightarrow> bool" where
  "mentions msg w = (\<exists>a b. msg = a @ w @ b)"

text \<open>The retry policy of the documentation, with every retry flag set.\<close>

definition policy_all :: RetryPolicy where
  "policy_all = \<lparr>max_retries = 3, initial_delay = 100, backoff_factor = 2, max_delay = 10000,
     retry_on_timeout = True, retry_on_connection_error = True, retry_on_5xx = True,
     current_attempt = 0\<rparr>"

text \<open>The same policy with room for a hundred retries, at attempt \<open>k\<close>.\<close>

definition policy_at :: "int \<Rightarrow> RetryPolicy" where
  "policy_at k = policy_all\<lparr>max_retries := 100, current_attempt := k\<rparr>"

text \<open>
  Arithmetic that does not round, which is what \<^verbatim>\<open>double\<close> arithmetic does on small
  integers and powers of two.
\<close>

definition exact_arith :: double_arith where
  "exact_arith = \<lparr>of_long_long = real_of_int, dpow = power_int, dmul = (*)\<rparr>"

text \<open>
  Each of the four operations of one call of \<^verbatim>\<open>get_delay\<close> returns its exact result
  up to the relative error \<open>eps\<close>.
\<close>

definition rounds_within :: "real \<Rightarrow> double_arith \<Rightarrow> RetryPolicy \<Rightarrow> real \<Rightarrow> bool" where
  "rounds_within eps D p jitter =
     (let i = real_of_int (initial_delay p);
          f = backoff_factor p ^ nat (current_attempt p);
          a = of_long_long D (initial_delay p);
          w = dpow D (backoff_factor p) (current_attempt p);
          b = dmul D a w
      in \<bar>a - i\<bar> \<le> eps * \<bar>i\<bar> \<and> \<bar>w - f\<bar> \<le> eps * \<bar>f\<bar> \<and>
         \<bar>b - a * w\<bar> \<le> eps * \<bar>a * w\<bar> \<and>
         \<bar>dmul D b jitter - b * jitter\<bar> \<le> eps * \<bar>b * jitter\<bar>)"

text \<open>
  Names that match case-insensitively, said without the code's lower-casing: two strings
  of the same length whose characters at each position are the same character or the two
  cases of one letter of the alphabet.
\<close>

definition letter_cases :: "(char \<times> char) list" where
  "letter_cases = zip ''ABCDEFGHIJKLMNOPQRSTUVWXYZ'' ''abcdefghijklmnopqrstuvwxyz''"

definition same_letter :: "char \<Rightarrow> char \<Rightarrow> bool" where
  "same_letter c d = (c = d \<or> (c, d) \<in> set letter_cases \<or> (d, c) \<in> set letter_cases)"

definition equal_ignoring_case :: "string \<Rightarrow> string \<Rightarrow> bool" where
  "equal_ignoring_case a b = list_all2 same_letter a b"

text \<open>A redirect response whose \<^verbatim>\<open>Location\<close> header is spelt in lower case.\<close>

definition response_302 :: HttpResponse where
  "response_302 =
     add_header ''location'' ''/new''
       (add_header ''Content-Type'' ''text/html''
          (HttpResponse_init\<lparr>status_code := 302, reason := ''Found''\<rparr>))"

text \<open>
  A request is reachable in a network when its URL parses and its host resolves whatever
  the state of the network.
\<close>

definition reachable :: "'w network \<Rightarrow> HttpRequest \<Rightarrow> bool" where
  "reachable net request =
     (case parse_url net (req_url request) of
        Inl e \<Rightarrow> False
      | Inr url_info \<Rightarrow> \<forall>w. fst (resolve net w url_info) = None)"

text \<open>
  A network of one plain-HTTP origin that answers every request: with the redirect above
  for the paths that have moved, with 200 otherwise. Its state is the list of the methods
  of the requests it has received.
\<close>

definition parse_url_a :: "string \<Rightarrow> exception + UrlInfo" where
  "parse_url_a u =
     (if take 16 u = ''http://a.example''
      then Inr \<lparr>scheme = ''http'', host = ''a.example'', port = ''80'', path = drop 16 u,
                is_https = False\<rparr>
      else Inl (RuntimeError ''Invalid URL''))"

definition response_200 :: HttpResponse where
  "response_200 = HttpResponse_init\<lparr>status_code := 200, reason := ''OK''\<rparr>"

definition origin_net :: "(string \<Rightarrow> bool) \<Rightarrow> HttpMethod list network" where
  "origin_net moved =
     \<lparr>parse_url = parse_url_a,
      resolve = (\<lambda>w url_info. (None, w)),
      exchange = (\<lambda>w request url_info.
        (Inr (if moved (path url_info) then response_302 else response_200),
         w @ [req_method request]))\<rparr>"

text \<open>Nothing has moved; everything has moved; only \<^verbatim>\<open>/old\<close> has moved.\<close>

definition steady_net :: "HttpMethod list network" where
  "steady_net = origin_net (\<lambda>p. False)"

definition looping_net :: "HttpMethod list network" where
  "looping_net = origin_net (\<lambda>p. True)"

definition moved_net :: "HttpMethod list network" where
  "moved_net = origin_net (\<lambda>p. p = ''/old'')"

text \<open>
  The configuration with the defaults of the specification, and the same with redirects
  off and with a single redirect allowed.
\<close>

definition default_config :: ClientConfig where
  "default_config = \<lparr>follow_redirects = True, max_redirects = 10, max_connections_per_host = 5\<rparr>"

definition no_redirect_config :: ClientConfig where
  "no_redirect_config = default_config\<lparr>follow_redirects := False\<rparr>"

definition one_redirect_config :: ClientConfig where
  "one_redirect_config = default_config\<lparr>max_redirects := 1\<rparr>"

text \<open>A client that has not sent anything yet, and the request the examples repeat.\<close>

definition fresh_client :: "HttpMethod list client_state" where
  "fresh_client = \<lparr>world = [], sockets_opened = 0\<rparr>"

definition get_request :: HttpRequest where
  "get_request = HttpRequest_new GET ''http://a.example/x''"

definition old_request :: HttpRequest where
  "old_request = HttpRequest_new GET ''http://a.example/old''"

definition old_url_info :: UrlInfo where
  "old_url_info =
     \<lparr>scheme = ''http'', host = ''a.example'', port = ''80'', path = ''/old'', is_https = False\<rparr>"

text \<open>A HEAD request with two headers of the user's.\<close>

definition head_request :: HttpRequest where
  "head_request =
     req_add_header ''Accept'' ''text/html''
       (req_add_header ''X-Trace'' ''1'' (HttpRequest_new HEAD ''http://a.example/old''))"

text \<open>
  A chunked body as the specification describes it: for each chunk its size in
  hexadecimal, CRLF, the bytes of the chunk, CRLF; then a chunk of size zero, followed
  by whatever trailer the sender adds.
\<close>

definition hex_digit :: "nat \<Rightarrow> char" where
  "hex_digit d = (if d < 10 then char_of (48 + d) else char_of (87 + d))"

fun to_hex :: "nat \<Rightarrow> string" where
  "to_hex n = (if n < 16 then [hex_digit n] else to_hex (n div 16) @ [hex_digit (n mod 16)])"

definition chunk_frame :: "string \<Rightarrow> string" where
  "chunk_frame c = to_hex (length c) @ [CR, LF] @ c @ [CR, LF]"

definition chunked_body :: "string list \<Rightarrow> string \<Rightarrow> string" where
  "chunked_body chunks trailer = concat (map chunk_frame chunks) @ ''0'' @ [CR, LF] @ trailer"

section \<open>Properties\<close>

declare sse_loop.simps [simp del] stream_lines.simps [simp del] decode_loop.simps [simp del]
  execute_with_redirects.simps [simp del] to_hex.simps [simp del]

subsection \<open>The string stream\<close>

lemma CR_neq_LF: "CR \<noteq> LF"
  by (simp add: CR_def LF_def)

lemma getline_line:
  assumes "LF \<notin> set l"
  shows "getline \<lparr>buf = l @ LF # rest, good = True\<rparr> = (Some l, \<lparr>buf = rest, good = True\<rparr>)"
proof -
  have "takeWhile (\<lambda>c. c \<noteq> LF) (l @ LF # rest) = l"
    using assms by (subst takeWhile_append2) auto
  moreover have "dropWhile (\<lambda>c. c \<noteq> LF) (l @ LF # rest) = LF # rest"
    using assms by (subst dropWhile_append2) auto
  ultimately show ?thesis
    by (simp add: getline_def)
qed

lemma stream_read_exact:
  "stream_read \<lparr>buf = c @ rest, good = True\<rparr> (length c) = (c, \<lparr>buf = rest, good = True\<rparr>)"
  by (simp add: stream_read_def)

lemma stream_lines_end: "stream_lines \<lparr>buf = [], good = True\<rparr> = []"
  by (subst stream_lines.simps) (simp add: getline_def)

lemma stream_lines_line:
  "LF \<notin> set l \<Longrightarrow>
   stream_lines \<lparr>buf = l @ LF # rest, good = True\<rparr> =
     l # stream_lines \<lparr>buf = rest, good = True\<rparr>"
  by (subst stream_lines.simps) (simp add: getline_line)

lemma stream_lines_last_line:
  assumes "LF \<notin> set l"
  shows "stream_lines \<lparr>buf = pre @ LF # l @ [LF], good = True\<rparr> \<noteq> [] \<and>
         last (stream_lines \<lparr>buf = pre @ LF # l @ [LF], good = True\<rparr>) = l"
proof (induction pre rule: length_induct)
  case (1 pre)
  show ?case
  proof (cases "LF \<in> set pre")
    case False
    have "stream_lines \<lparr>buf = pre @ LF # l @ [LF], good = True\<rparr> =
          pre # stream_lines \<lparr>buf = l @ LF # [], good = True\<rparr>"
      using False by (simp add: stream_lines_line)
    also have "\<dots> = [pre, l]"
      using assms by (simp add: stream_lines_line stream_lines_end)
    finally show ?thesis by simp
  next
    case True
    then obtain a b where ab: "pre = a @ LF # b" "LF \<notin> set a"
      by (meson split_list_first)
    have "stream_lines \<lparr>buf = pre @ LF # l @ [LF], good = True\<rparr> =
          a # stream_lines \<lparr>buf = b @ LF # l @ [LF], good = True\<rparr>"
      using ab stream_lines_line [of a "b @ LF # l @ [LF]"] by simp
    moreover have "stream_lines \<lparr>buf = b @ LF # l @ [LF], good = True\<rparr> \<noteq> [] \<and>
         last (stream_lines \<lparr>buf = b @ LF # l @ [LF], good = True\<rparr>) = l"
      using 1 ab by simp
    ultimately show ?thesis by simp
  qed
qed

lemma blank_end_lines:
  assumes "data = pre @ [LF, LF] \<or> data = pre @ [LF, CR, LF]"
  shows "strip_cr (last (stream_lines (istringstream_of data))) = []"
  using assms
proof
  assume "data = pre @ [LF, LF]"
  then show ?thesis
    using stream_lines_last_line [of "[]" pre]
    by (simp add: istringstream_of_def strip_cr_def)
next
  assume "data = pre @ [LF, CR, LF]"
  moreover have "LF \<notin> set [CR]"
    using CR_neq_LF by auto
  ultimately show ?thesis
    using stream_lines_last_line [of "[CR]" pre]
    by (simp add: istringstream_of_def strip_cr_def)
qed

subsection \<open>Server-sent events\<close>

lemma sse_loop_none:
  "getline s = (None, s1) \<Longrightarrow> sse_loop s current_event data_lines events = (current_event, data_lines, events)"
  by (simp add: sse_loop.simps [of s])

lemma sse_loop_step:
  "getline s = (Some line0, s1) \<Longrightarrow>
   sse_loop s current_event data_lines events =
     (case parse_sse_line line0 (current_event, data_lines, events) of
        (ev', dl', evs') \<Rightarrow> sse_loop s1 ev' dl' evs')"
  by (simp add: sse_loop.simps [of s] parse_sse_line_def strip_cr_def Let_def
        split: prod.splits)

lemma sse_loop_fold:
  "sse_loop s current_event data_lines events =
     fold parse_sse_line (stream_lines s) (current_event, data_lines, events)"
proof (induction s arbitrary: current_event data_lines events rule: stream_lines.induct)
  case (1 s)
  show ?case
  proof (cases "getline s")
    case (Pair r s1)
    show ?thesis
    proof (cases r)
      case None
      with Pair show ?thesis
        by (simp add: sse_loop_none stream_lines.simps [of s])
    next
      case (Some line0)
      obtain ev' dl' evs' where st: "parse_sse_line line0 (current_event, data_lines, events) = (ev', dl', evs')"
        by (cases "parse_sse_line line0 (current_event, data_lines, events)") auto
      have "sse_loop s current_event data_lines events = sse_loop s1 ev' dl' evs'"
        using Pair Some st by (simp add: sse_loop_step)
      also have "\<dots> = fold parse_sse_line (stream_lines s1) (ev', dl', evs')"
        using "1.IH" [OF Pair [symmetric] Some] by simp
      finally show ?thesis
        using Pair Some st by (simp add: stream_lines.simps [of s])
    qed
  qed
qed

lemma parse_sse_stream_feed:
  "parse_sse_stream data =
     (case feed_lines (stream_lines (istringstream_of data)) (SseEvent_init, [], []) of
        (current_event, data_lines, events) \<Rightarrow>
          if sse_pending (current_event, data_lines, events)
          then
            (let ev = current_event
                   \<lparr>ev_data := append_data_lines (ev_data current_event) 0 data_lines\<rparr>
             in if \<not> empty_event ev then events @ [ev] else events)
          else events)"
  by (simp add: parse_sse_stream_def sse_loop_fold feed_lines_def sse_pending_def)

lemma blank_line_not_pending:
  "strip_cr l = [] \<Longrightarrow> \<not> sse_pending (parse_sse_line l st)"
  by (cases st) (auto simp: parse_sse_line_def sse_pending_def strip_cr_def SseEvent_init_def Let_def)

lemma feed_lines_last:
  "ls \<noteq> [] \<Longrightarrow> feed_lines ls st = parse_sse_line (last ls) (feed_lines (butlast ls) st)"
proof -
  assume "ls \<noteq> []"
  then have "ls = butlast ls @ [last ls]" by simp
  then have "feed_lines ls st = feed_lines (butlast ls @ [last ls]) st" by simp
  then show ?thesis by (simp add: feed_lines_def)
qed

lemma lines_blank_end_not_pending:
  assumes "ls = [] \<or> strip_cr (last ls) = []"
  shows "\<not> sse_pending (feed_lines ls (SseEvent_init, [], []))"
proof (cases "ls = []")
  case True
  then show ?thesis by (simp add: feed_lines_def sse_pending_def SseEvent_init_def)
next
  case False
  with assms have "strip_cr (last ls) = []" by simp
  then show ?thesis using False by (simp add: feed_lines_last blank_line_not_pending)
qed

lemmas sse_eval = parse_sse_stream_def parse_sse_incremental_def feed_lines_def parse_sse_line_def
  istringstream_of_def getline_def strip_cr_def split_field_def empty_event_def SseEvent_init_def
  sse_loop.simps stream_lines.simps Let_def CR_def LF_def

text \<open>
  C8, as the code has it. \<^verbatim>\<open>parse_sse_line\<close> knows no end of stream: fed the lines of
  a stream one at a time it dispatches the events that \<^verbatim>\<open>parse_sse_stream\<close> dispatches
  inside its loop, and \<^verbatim>\<open>parse_sse_stream\<close> adds at most one more, the event still
  pending at the end. The two sequences are equal whenever the last line of the stream is
  blank (or the stream has no line at all), in particular for every stream that ends
  with two line feeds, with or without a carriage return between them.
\<close>

theorem sse_incremental_vs_whole:
  "(\<exists>tl. parse_sse_stream data = parse_sse_incremental data @ tl \<and> length tl \<le> 1) \<and>
   (stream_lines (istringstream_of data) = [] \<or>
    strip_cr (last (stream_lines (istringstream_of data))) = [] \<longrightarrow>
      parse_sse_stream data = parse_sse_incremental data) \<and>
   (data = pre @ [LF, LF] \<or> data = pre @ [LF, CR, LF] \<longrightarrow>
      parse_sse_stream data = parse_sse_incremental data)"
proof (intro conjI impI)
  obtain ev dl evs where st:
    "feed_lines (stream_lines (istringstream_of data)) (SseEvent_init, [], []) = (ev, dl, evs)"
    by (cases "feed_lines (stream_lines (istringstream_of data)) (SseEvent_init, [], [])") auto
  show "\<exists>tl. parse_sse_stream data = parse_sse_incremental data @ tl \<and> length tl \<le> 1"
    using st by (auto simp: parse_sse_stream_feed parse_sse_incremental_def Let_def)
next
  assume h: "stream_lines (istringstream_of data) = [] \<or>
    strip_cr (last (stream_lines (istringstream_of data))) = []"
  have "\<not> sse_pending (feed_lines (stream_lines (istringstream_of data)) (SseEvent_init, [], []))"
    using h by (rule lines_blank_end_not_pending)
  then show "parse_sse_stream data = parse_sse_incremental data"
    by (auto simp: parse_sse_stream_feed parse_sse_incremental_def split: prod.splits)
next
  assume "data = pre @ [LF, LF] \<or> data = pre @ [LF, CR, LF]"
  then have "strip_cr (last (stream_lines (istringstream_of data))) = []"
    by (rule blank_end_lines)
  then have "\<not> sse_pending (feed_lines (stream_lines (istringstream_of data)) (SseEvent_init, [], []))"
    by (intro lines_blank_end_not_pending) simp
  then show "parse_sse_stream data = parse_sse_incremental data"
    by (auto simp: parse_sse_stream_feed parse_sse_incremental_def split: prod.splits)
qed

text \<open>
  C8 as stated fails for a stream that does not end with a blank line: the whole-stream
  parser emits the unterminated event, the incremental parser keeps it pending.
\<close>

theorem sse_incremental_vs_whole_counterexample:
  "parse_sse_incremental ''data: a'' \<noteq> parse_sse_stream ''data: a''"
  by (simp add: sse_eval)

theorem sse_incremental_vs_whole_witness:
  "strip_cr (last (stream_lines (istringstream_of (''data: a'' @ [LF, LF])))) = [] \<and>
   parse_sse_stream (''data: a'' @ [LF, LF]) = parse_sse_incremental (''data: a'' @ [LF, LF]) \<and>
   parse_sse_incremental (''data: a'' @ [LF, LF]) =
     [\<lparr>ev_type = [], ev_data = ''a'', ev_id = [], ev_retry = [], ev_fields = []\<rparr>]"
  using sse_incremental_vs_whole [of "''data: a'' @ [LF, LF]" "''data: a''"]
  by (simp add: sse_eval)

text \<open>
  C6 at the input the claim names: the line \<^verbatim>\<open>retry: 100\<close> and a blank line. The
  dispatch guard holds, since the retry hint is set, but \<^verbatim>\<open>SseEvent::empty()\<close> does
  not look at the retry hint, so the event is dropped and no event is emitted.
\<close>

theorem parse_sse_stream_retry_only:
  "parse_sse_stream (''retry: 100'' @ [LF, LF]) = []"
  by (simp add: sse_eval)

theorem parse_sse_stream_retry_only_witness:
  "parse_sse_stream (''retry: 100'' @ [LF, LF]) \<noteq>
     [\<lparr>ev_type = [], ev_data = [], ev_id = [], ev_retry = ''100'', ev_fields = []\<rparr>]"
  using parse_sse_stream_retry_only by simp

subsection \<open>Chunked bodies\<close>

lemma of_char_hex_digit:
  "d < 16 \<Longrightarrow> (of_char (hex_digit d) :: nat) = (if d < 10 then 48 + d else 87 + d)"
  by (simp add: hex_digit_def)

lemma hex_val_hex_digit: "d < 16 \<Longrightarrow> hex_val (hex_digit d) = Some d"
  by (simp add: hex_val_def of_char_hex_digit Let_def)

lemma hex_digit_plain:
  assumes "d < 16"
  shows "is_hex (hex_digit d)" "hex_digit d \<noteq> LF" "hex_digit d \<noteq> CR" "\<not> isspace (hex_digit d)"
    "hex_digit d \<noteq> CHR ''-''" "hex_digit d \<noteq> CHR ''+''"
    "hex_digit d \<noteq> CHR ''x''" "hex_digit d \<noteq> CHR ''X''"
proof -
  have oc: "(of_char (hex_digit d) :: nat) = (if d < 10 then 48 + d else 87 + d)"
    using assms by (rule of_char_hex_digit)
  show "is_hex (hex_digit d)"
    using assms by (simp add: is_hex_def hex_val_hex_digit)
  have ne: "hex_digit d \<noteq> c" if "(of_char c :: nat) < 48 \<or> (57 < (of_char c :: nat) \<and> (of_char c :: nat) < 97) \<or> 102 < (of_char c :: nat)" for c
  proof
    assume "hex_digit d = c"
    then have "(of_char c :: nat) = (if d < 10 then 48 + d else 87 + d)"
      using oc by simp
    with that assms show False by (auto split: if_splits)
  qed
  show "hex_digit d \<noteq> LF" by (rule ne) (simp add: LF_def)
  show "hex_digit d \<noteq> CR" by (rule ne) (simp add: CR_def)
  show "hex_digit d \<noteq> CHR ''-''" by (rule ne) simp
  show "hex_digit d \<noteq> CHR ''+''" by (rule ne) simp
  show "hex_digit d \<noteq> CHR ''x''" by (rule ne) simp
  show "hex_digit d \<noteq> CHR ''X''" by (rule ne) simp
  show "\<not> isspace (hex_digit d)"
    using assms by (simp add: isspace_def oc Let_def)
qed

lemma to_hex_digits: "c \<in> set (to_hex n) \<Longrightarrow> \<exists>d < 16. c = hex_digit d"
proof (induction n rule: to_hex.induct)
  case (1 n)
  show ?case
  proof (cases "n < 16")
    case True
    with "1.prems" show ?thesis by (auto simp: to_hex.simps [of n])
  next
    case False
    with "1.prems" have "c \<in> set (to_hex (n div 16)) \<or> c = hex_digit (n mod 16)"
      by (auto simp: to_hex.simps [of n])
    then show ?thesis
    proof
      assume "c \<in> set (to_hex (n div 16))"
      with "1.IH" False show ?thesis by simp
    next
      assume "c = hex_digit (n mod 16)"
      moreover have "n mod 16 < 16" by simp
      ultimately show ?thesis by blast
    qed
  qed
qed

lemma to_hex_not_Nil: "to_hex n \<noteq> []"
  by (subst to_hex.simps) simp

lemma hex_value_snoc: "hex_value (ds @ [c]) = 16 * hex_value ds + the (hex_val c)"
  by (simp add: hex_value_def)

lemma hex_value_to_hex: "hex_value (to_hex n) = n"
proof (induction n rule: to_hex.induct)
  case (1 n)
  show ?case
  proof (cases "n < 16")
    case True
    then show ?thesis
      by (simp add: to_hex.simps [of n] hex_value_def hex_val_hex_digit)
  next
    case False
    with "1.IH" have "hex_value (to_hex (n div 16)) = n div 16" by simp
    with False show ?thesis
      by (simp add: to_hex.simps [of n] hex_value_snoc hex_val_hex_digit)
  qed
qed

lemma takeWhile_all: "(\<And>x. x \<in> set xs \<Longrightarrow> P x) \<Longrightarrow> takeWhile P xs = xs"
  by (induction xs) auto

lemma strip_0x_to_hex: "strip_0x (to_hex n) = to_hex n"
proof (cases "to_hex n" rule: strip_0x.cases)
  case (1 c0 cx h t)
  then have "cx \<in> set (to_hex n)" by simp
  then obtain d where "d < 16" "cx = hex_digit d"
    using to_hex_digits by blast
  then have "cx \<noteq> CHR ''x''" "cx \<noteq> CHR ''X''"
    using hex_digit_plain by auto
  with 1 show ?thesis by simp
qed simp_all

lemma stoul16_to_hex:
  assumes "n \<le> ulong_max P"
  shows "stoul16 P (to_hex n) = Some n"
proof -
  obtain c cs where cons: "to_hex n = c # cs"
    using to_hex_not_Nil [of n] by (cases "to_hex n") auto
  then have "c \<in> set (to_hex n)" by simp
  then obtain d where d: "d < 16" "c = hex_digit d"
    using to_hex_digits by blast
  have sp: "dropWhile isspace (to_hex n) = to_hex n"
    using cons d hex_digit_plain(4) by simp
  have sign: "hd (to_hex n) \<noteq> CHR ''-''" "hd (to_hex n) \<noteq> CHR ''+''"
    using cons d hex_digit_plain by auto
  have digs: "takeWhile is_hex (to_hex n) = to_hex n"
  proof (rule takeWhile_all)
    fix x assume "x \<in> set (to_hex n)"
    then obtain e where "e < 16" "x = hex_digit e"
      using to_hex_digits by blast
    then show "is_hex x" using hex_digit_plain(1) by simp
  qed
  show ?thesis
    using assms sign
    by (simp add: stoul16_def sp strip_0x_to_hex digs hex_value_to_hex to_hex_not_Nil Let_def)
qed

lemma decode_loop_chunk:
  assumes "c \<noteq> []" "length c \<le> ulong_max P" "length result + length c \<le> string_max_size P"
  shows "decode_loop P \<lparr>buf = chunk_frame c @ rest, good = True\<rparr> result =
         decode_loop P \<lparr>buf = rest, good = True\<rparr> (result @ c)"
proof -
  let ?n = "length c"
  have nolf: "LF \<notin> set (to_hex ?n @ [CR])"
    using to_hex_digits hex_digit_plain(2) CR_neq_LF by fastforce
  have buf: "chunk_frame c @ rest = (to_hex ?n @ [CR]) @ LF # (c @ CR # LF # rest)"
    by (simp add: chunk_frame_def)
  have g1: "getline \<lparr>buf = chunk_frame c @ rest, good = True\<rparr> =
        (Some (to_hex ?n @ [CR]), \<lparr>buf = c @ CR # LF # rest, good = True\<rparr>)"
    unfolding buf using nolf by (rule getline_line)
  have st: "stoul16 P (to_hex ?n) = Some ?n"
    using assms(2) by (rule stoul16_to_hex)
  have rd: "stream_read \<lparr>buf = c @ CR # LF # rest, good = True\<rparr> ?n =
        (c, \<lparr>buf = CR # LF # rest, good = True\<rparr>)"
    by (rule stream_read_exact)
  have g2: "getline \<lparr>buf = CR # LF # rest, good = True\<rparr> =
        (Some [CR], \<lparr>buf = rest, good = True\<rparr>)"
    using getline_line [of "[CR]" rest] CR_neq_LF by simp
  show ?thesis
    using assms
    by (subst decode_loop.simps) (simp add: g1 st rd g2 to_hex_not_Nil)
qed

lemma stoul16_zero: "stoul16 P ''0'' = Some 0"
  by (simp add: stoul16_def isspace_def is_hex_def hex_val_def hex_value_def Let_def)

lemma decode_loop_last:
  "decode_loop P \<lparr>buf = ''0'' @ [CR, LF] @ trailer, good = True\<rparr> result = Inr result"
proof -
  have "getline \<lparr>buf = ''0'' @ [CR, LF] @ trailer, good = True\<rparr> =
        (Some (''0'' @ [CR]), \<lparr>buf = trailer, good = True\<rparr>)"
    using getline_line [of "''0'' @ [CR]" trailer] by (simp add: CR_def LF_def)
  then show ?thesis
    by (subst decode_loop.simps) (simp add: stoul16_zero)
qed

lemma decode_loop_chunks:
  assumes "\<forall>c \<in> set chunks. c \<noteq> []"
    and "length (concat chunks) \<le> ulong_max P"
    and "length result + length (concat chunks) \<le> string_max_size P"
  shows "decode_loop P \<lparr>buf = concat (map chunk_frame chunks) @ rest, good = True\<rparr> result =
         decode_loop P \<lparr>buf = rest, good = True\<rparr> (result @ concat chunks)"
  using assms
proof (induction chunks arbitrary: result)
  case Nil
  then show ?case by simp
next
  case (Cons c chunks)
  have "decode_loop P \<lparr>buf = chunk_frame c @ (concat (map chunk_frame chunks) @ rest), good = True\<rparr> result =
        decode_loop P \<lparr>buf = concat (map chunk_frame chunks) @ rest, good = True\<rparr> (result @ c)"
    using Cons.prems by (intro decode_loop_chunk) auto
  also have "\<dots> = decode_loop P \<lparr>buf = rest, good = True\<rparr> ((result @ c) @ concat chunks)"
    using Cons.prems by (intro Cons.IH) auto
  finally show ?case by simp
qed

text \<open>
  C7. A body framed as the specification says, with non-empty chunks whose total size the
  platform can hold, decodes to the concatenation of its chunks. The body
  \<^verbatim>\<open>5 CRLF Hello CRLF 6 CRLF " World" CRLF 0 CRLF CRLF\<close> decodes to
  \<^verbatim>\<open>Hello World\<close>, and the stream \<^verbatim>\<open>event: m\<close>, \<^verbatim>\<open>id: 7\<close>,
  \<^verbatim>\<open>data: a\<close>, \<^verbatim>\<open>data: b\<close>, blank line, parses to one event of type
  \<^verbatim>\<open>m\<close> with id \<^verbatim>\<open>7\<close> and the two data lines joined by one line feed.
\<close>

theorem decode_chunked_frames:
  "((\<forall>c \<in> set chunks. c \<noteq> []) \<and> length (concat chunks) \<le> ulong_max P \<and>
    length (concat chunks) \<le> string_max_size P \<longrightarrow>
      decode_chunked P (chunked_body chunks trailer) = Inr (concat chunks)) \<and>
   decode_chunked lp64
     (''5'' @ [CR, LF] @ ''Hello'' @ [CR, LF] @ ''6'' @ [CR, LF] @ '' World'' @ [CR, LF] @
      ''0'' @ [CR, LF, CR, LF]) = Inr ''Hello World'' \<and>
   parse_sse_stream
     (''event: m'' @ [LF] @ ''id: 7'' @ [LF] @ ''data: a'' @ [LF] @ ''data: b'' @ [LF, LF]) =
     [\<lparr>ev_type = ''m'', ev_data = ''a'' @ [LF] @ ''b'', ev_id = ''7'', ev_retry = [],
        ev_fields = []\<rparr>]"
proof (intro conjI impI)
  assume h: "(\<forall>c \<in> set chunks. c \<noteq> []) \<and> length (concat chunks) \<le> ulong_max P \<and>
    length (concat chunks) \<le> string_max_size P"
  have "decode_loop P \<lparr>buf = concat (map chunk_frame chunks) @ (''0'' @ [CR, LF] @ trailer),
          good = True\<rparr> [] =
        decode_loop P \<lparr>buf = ''0'' @ [CR, LF] @ trailer, good = True\<rparr> ([] @ concat chunks)"
    using h by (intro decode_loop_chunks) auto
  then show "decode_chunked P (chunked_body chunks trailer) = Inr (concat chunks)"
    using decode_loop_last [of P trailer "concat chunks"]
    by (simp add: decode_chunked_def chunked_body_def istringstream_of_def)
next
  show "decode_chunked lp64
     (''5'' @ [CR, LF] @ ''Hello'' @ [CR, LF] @ ''6'' @ [CR, LF] @ '' World'' @ [CR, LF] @
      ''0'' @ [CR, LF, CR, LF]) = Inr ''Hello World''"
    by (simp add: decode_chunked_def decode_loop.simps istringstream_of_def getline_def
          stream_read_def stoul16_def hex_value_def hex_val_def is_hex_def isspace_def lp64_def
          CR_def LF_def Let_def)
next
  show "parse_sse_stream
     (''event: m'' @ [LF] @ ''id: 7'' @ [LF] @ ''data: a'' @ [LF] @ ''data: b'' @ [LF, LF]) =
     [\<lparr>ev_type = ''m'', ev_data = ''a'' @ [LF] @ ''b'', ev_id = ''7'', ev_retry = [],
        ev_fields = []\<rparr>]"
    by (simp add: sse_eval)
qed

theorem decode_chunked_frames_witness:
  "chunked_body [''Hello'', '' World''] [CR, LF] =
     ''5'' @ [CR, LF] @ ''Hello'' @ [CR, LF] @ ''6'' @ [CR, LF] @ '' World'' @ [CR, LF] @
     ''0'' @ [CR, LF, CR, LF] \<and>
   decode_chunked lp64 (chunked_body [''Hello'', '' World''] [CR, LF]) = Inr ''Hello World''"
  using decode_chunked_frames [of "[''Hello'', '' World'']" lp64 "[CR, LF]"]
  by (simp add: chunked_body_def chunk_frame_def to_hex.simps hex_digit_def lp64_def
        char_of_def bit_Suc_0_iff)

text \<open>
  C10 at an input that starts with a bare line feed: the first line is empty and the
  decoder reads \<^verbatim>\<open>line.back()\<close> of it.
\<close>

theorem decode_chunked_blank_line:
  "decode_chunked P (LF # rest) = Inl BackOfEmptyString"
  by (simp add: decode_chunked_def decode_loop.simps istringstream_of_def getline_def)

theorem decode_chunked_blank_line_witness:
  "decode_chunked lp64 [LF] = Inl BackOfEmptyString \<and>
   decode_chunked lp64 (''2'' @ [CR, LF] @ ''Hi'' @ [CR, LF, LF]) \<noteq> Inr ''Hi''"
  using decode_chunked_blank_line [of lp64 "[]"]
  by (simp add: decode_chunked_def decode_loop.simps istringstream_of_def getline_def
        stream_read_def stoul16_def hex_value_def hex_val_def is_hex_def isspace_def lp64_def
        CR_def LF_def Let_def)

subsection \<open>Retry policy\<close>

lemma str_find_iff: "str_find s pat \<noteq> None \<longleftrightarrow> (\<exists>a b. s = a @ pat @ b)"
proof (induction s)
  case Nil
  then show ?case by auto
next
  case (Cons c cs)
  show ?case
  proof (cases "take (length pat) (c # cs) = pat")
    case True
    then have "c # cs = [] @ pat @ drop (length pat) (c # cs)"
      by (metis append_Nil append_take_drop_id)
    then have "\<exists>a b. c # cs = a @ pat @ b" by blast
    with True show ?thesis by simp
  next
    case False
    have "(\<exists>a b. c # cs = a @ pat @ b) \<longleftrightarrow> (\<exists>a b. cs = a @ pat @ b)"
    proof
      assume "\<exists>a b. c # cs = a @ pat @ b"
      then obtain a b where ab: "c # cs = a @ pat @ b" by blast
      show "\<exists>a b. cs = a @ pat @ b"
      proof (cases a)
        case Nil
        with ab have "take (length pat) (c # cs) = pat" by simp
        with False show ?thesis by simp
      next
        case (Cons x a')
        with ab have "cs = a' @ pat @ b" by simp
        then show ?thesis by blast
      qed
    next
      assume "\<exists>a b. cs = a @ pat @ b"
      then obtain a b where "cs = a @ pat @ b" by blast
      then have "c # cs = (c # a) @ pat @ b" by simp
      then show "\<exists>a b. c # cs = a @ pat @ b" by blast
    qed
    with False Cons.IH show ?thesis by simp
  qed
qed

lemma mentions_find: "str_find msg w \<noteq> None \<longleftrightarrow> mentions msg w"
  by (simp only: str_find_iff mentions_def)

lemma retry_decision:
  "(if ge then False
    else if t \<and> T then True else if c \<and> C then True else if f \<and> F then True else False) =
   (\<not> ge \<and> (t \<and> T \<or> c \<and> C \<or> f \<and> F))"
  by auto

lemma should_retry_what:
  "should_retry p e status =
     (\<not> current_attempt p \<ge> max_retries p \<and>
      (retry_on_timeout p \<and>
         (mentions (what e) ''timeout'' \<or> mentions (what e) ''Timeout'' \<or>
          mentions (what e) ''timed out'') \<or>
       retry_on_connection_error p \<and>
         (mentions (what e) ''Connection'' \<or> mentions (what e) ''connection'' \<or>
          mentions (what e) ''refused'' \<or> mentions (what e) ''reset'' \<or>
          mentions (what e) ''broken pipe'' \<or> mentions (what e) ''network'') \<or>
       retry_on_5xx p \<and> (500 \<le> status \<and> status < 600)))"
  unfolding should_retry_def Let_def mentions_find
  by (rule retry_decision)

text \<open>
  C2, as the code has it. \<^verbatim>\<open>should_retry\<close> reads nothing of the exception but the
  text \<^verbatim>\<open>what()\<close> returns: it is true iff the attempt count is below the maximum and
  either timeouts are retried and the text contains \<^verbatim>\<open>timeout\<close>, \<^verbatim>\<open>Timeout\<close> or
  \<^verbatim>\<open>timed out\<close>, or connection errors are retried and the text contains
  \<^verbatim>\<open>Connection\<close>, \<^verbatim>\<open>connection\<close>, \<^verbatim>\<open>refused\<close>, \<^verbatim>\<open>reset\<close>,
  \<^verbatim>\<open>broken pipe\<close> or \<^verbatim>\<open>network\<close>, or server errors are retried and the status is
  in [500, 600). Two exceptions with the same text get the same decision, whatever their
  class.
\<close>

theorem should_retry_by_message:
  "should_retry p e status =
     (current_attempt p < max_retries p \<and>
      (retry_on_timeout p \<and>
         (mentions (what e) ''timeout'' \<or> mentions (what e) ''Timeout'' \<or>
          mentions (what e) ''timed out'') \<or>
       retry_on_connection_error p \<and>
         (mentions (what e) ''Connection'' \<or> mentions (what e) ''connection'' \<or>
          mentions (what e) ''refused'' \<or> mentions (what e) ''reset'' \<or>
          mentions (what e) ''broken pipe'' \<or> mentions (what e) ''network'') \<or>
       retry_on_5xx p \<and> 500 \<le> status \<and> status < 600)) \<and>
   (what e = what e' \<longrightarrow> should_retry p e status = should_retry p e' status)"
proof
  show "should_retry p e status =
     (current_attempt p < max_retries p \<and>
      (retry_on_timeout p \<and>
         (mentions (what e) ''timeout'' \<or> mentions (what e) ''Timeout'' \<or>
          mentions (what e) ''timed out'') \<or>
       retry_on_connection_error p \<and>
         (mentions (what e) ''Connection'' \<or> mentions (what e) ''connection'' \<or>
          mentions (what e) ''refused'' \<or> mentions (what e) ''reset'' \<or>
          mentions (what e) ''broken pipe'' \<or> mentions (what e) ''network'') \<or>
       retry_on_5xx p \<and> 500 \<le> status \<and> status < 600))"
    by (simp only: should_retry_what not_le)
  show "what e = what e' \<longrightarrow> should_retry p e status = should_retry p e' status"
    by (simp only: should_retry_def) simp
qed

text \<open>
  C2 as stated fails: two \<^verbatim>\<open>std::system_error\<close>s, both failures to connect, are
  told apart by their text. ``Connection refused'' is retried, ``Network is unreachable''
  (capital N) is not.
\<close>

theorem should_retry_kind_counterexample:
  "should_retry policy_all (SystemError ''Connection refused'') 0 \<noteq>
   should_retry policy_all (SystemError ''Network is unreachable'') 0"
  by (simp add: should_retry_def policy_all_def)

theorem should_retry_by_message_witness:
  "what (RuntimeError ''Read timeout'') = what (SystemError ''Read timeout'') \<and>
   should_retry policy_all (RuntimeError ''Read timeout'') 0 \<and>
   should_retry policy_all (SystemError ''Read timeout'') 0 \<and>
   \<not> should_retry policy_all (SystemError ''Host not found (authoritative)'') 404"
  using should_retry_by_message [of policy_all "RuntimeError ''Read timeout''" 0 "SystemError ''Read timeout''"]
  by (simp add: should_retry_def policy_all_def)

lemma rounded_nonneg:
  assumes "\<bar>r - x\<bar> \<le> eps * \<bar>x::real\<bar>" "0 \<le> x" "0 \<le> eps" "eps \<le> 1"
  shows "(1 - eps) * x \<le> r" "r \<le> (1 + eps) * x" "0 \<le> r"
proof -
  have "\<bar>x\<bar> = x" using assms(2) by (rule abs_of_nonneg)
  with assms(1) have "\<bar>r - x\<bar> \<le> eps * x" by simp
  then have "x - eps * x \<le> r" and "r \<le> x + eps * x"
    by (simp_all add: abs_le_iff)
  then show lo: "(1 - eps) * x \<le> r" and "r \<le> (1 + eps) * x"
    by (simp_all add: algebra_simps)
  have "0 \<le> (1 - eps) * x" using assms by simp
  with lo show "0 \<le> r" by simp
qed

lemma to_long_long_in_range:
  assumes "0 \<le> x" "x < 2 ^ 63"
  shows "\<exists>d. to_long_long x = Some d \<and> real_of_int d \<le> x \<and> x - 1 < real_of_int d"
proof -
  have "to_long_long x = Some \<lfloor>x\<rfloor>"
    using assms by (simp add: to_long_long_def)
  moreover have "real_of_int \<lfloor>x\<rfloor> \<le> x" "x - 1 < real_of_int \<lfloor>x\<rfloor>"
    by linarith+
  ultimately show ?thesis by blast
qed

lemma to_long_long_beyond: "2 ^ 63 \<le> x \<Longrightarrow> to_long_long x = None"
  by (simp add: to_long_long_def)

lemma jittered_product_bounds:
  assumes r: "rounds_within eps D p jitter"
    and eps: "0 \<le> eps" "eps \<le> 1"
    and j: "jl \<le> jitter" "jitter \<le> jh" "0 \<le> jl"
    and nn: "0 \<le> initial_delay p" "0 \<le> backoff_factor p"
  defines "B \<equiv> real_of_int (initial_delay p) * backoff_factor p ^ nat (current_attempt p)"
  defines "x \<equiv> dmul D (dmul D (of_long_long D (initial_delay p))
                    (dpow D (backoff_factor p) (current_attempt p))) jitter"
  shows "jl * (1 - eps) ^ 4 * B \<le> x" "x \<le> jh * (1 + eps) ^ 4 * B"
proof -
  define i where "i = real_of_int (initial_delay p)"
  define f where "f = backoff_factor p ^ nat (current_attempt p)"
  define a where "a = of_long_long D (initial_delay p)"
  define w where "w = dpow D (backoff_factor p) (current_attempt p)"
  define b where "b = dmul D a w"
  define L where "L = 1 - eps"
  define H where "H = 1 + eps"
  have L0: "0 \<le> L" and H0: "0 \<le> H" using eps by (simp_all add: L_def H_def)
  have i0: "0 \<le> i" and f0: "0 \<le> f" using nn by (simp_all add: i_def f_def)
  have j0: "0 \<le> jitter" using j by simp
  from r have ra: "\<bar>a - i\<bar> \<le> eps * \<bar>i\<bar>" and rw: "\<bar>w - f\<bar> \<le> eps * \<bar>f\<bar>"
    and rb: "\<bar>b - a * w\<bar> \<le> eps * \<bar>a * w\<bar>"
    and rx: "\<bar>x - b * jitter\<bar> \<le> eps * \<bar>b * jitter\<bar>"
    by (simp_all add: rounds_within_def Let_def x_def i_def f_def a_def w_def b_def)
  have a: "L * i \<le> a" "a \<le> H * i" "0 \<le> a"
    using rounded_nonneg [OF ra i0 eps] by (simp_all add: L_def H_def)
  have w: "L * f \<le> w" "w \<le> H * f" "0 \<le> w"
    using rounded_nonneg [OF rw f0 eps] by (simp_all add: L_def H_def)
  have aw0: "0 \<le> a * w" using a(3) w(3) by simp
  have b: "L * (a * w) \<le> b" "b \<le> H * (a * w)" "0 \<le> b"
    using rounded_nonneg [OF rb aw0 eps] by (simp_all add: L_def H_def)
  have bj0: "0 \<le> b * jitter" using b(3) j0 by simp
  have xb: "L * (b * jitter) \<le> x" "x \<le> H * (b * jitter)"
    using rounded_nonneg [OF rx bj0 eps] by (simp_all add: L_def H_def)
  have Li0: "0 \<le> L * i" and Lf0: "0 \<le> L * f" and Hi0: "0 \<le> H * i" and Hf0: "0 \<le> H * f"
    using L0 H0 i0 f0 by simp_all
  have aw_lo: "(L * i) * (L * f) \<le> a * w"
    using a(1) w(1) a(3) Lf0 by (rule mult_mono)
  have aw_hi: "a * w \<le> (H * i) * (H * f)"
    using a(2) w(2) Hi0 w(3) by (rule mult_mono)
  have "L * ((L * i) * (L * f)) \<le> L * (a * w)"
    using aw_lo L0 by (rule mult_left_mono)
  with b(1) have b_lo: "L * ((L * i) * (L * f)) \<le> b" by (rule order_trans [rotated])
  have "H * (a * w) \<le> H * ((H * i) * (H * f))"
    using aw_hi H0 by (rule mult_left_mono)
  with b(2) have b_hi: "b \<le> H * ((H * i) * (H * f))" by (rule order_trans)
  have blo0: "0 \<le> L * ((L * i) * (L * f))" using L0 Li0 Lf0 by simp
  have bj_lo: "(L * ((L * i) * (L * f))) * jl \<le> b * jitter"
    using b_lo j(1) b(3) j(3) by (rule mult_mono)
  have bhi0: "0 \<le> H * ((H * i) * (H * f))" using H0 Hi0 Hf0 by simp
  have bj_hi: "b * jitter \<le> (H * ((H * i) * (H * f))) * jh"
    using b_hi j(2) bhi0 j0 by (rule mult_mono)
  have "L * ((L * ((L * i) * (L * f))) * jl) \<le> L * (b * jitter)"
    using bj_lo L0 by (rule mult_left_mono)
  with xb(1) have x_lo: "L * ((L * ((L * i) * (L * f))) * jl) \<le> x"
    by (rule order_trans [rotated])
  have "H * (b * jitter) \<le> H * ((H * ((H * i) * (H * f))) * jh)"
    using bj_hi H0 by (rule mult_left_mono)
  with xb(2) have x_hi: "x \<le> H * ((H * ((H * i) * (H * f))) * jh)"
    by (rule order_trans)
  have eq_lo: "L * ((L * ((L * i) * (L * f))) * jl) = jl * L ^ 4 * (i * f)"
    by (simp add: power4_eq_xxxx)
  have eq_hi: "H * ((H * ((H * i) * (H * f))) * jh) = jh * H ^ 4 * (i * f)"
    by (simp add: power4_eq_xxxx)
  show "jl * (1 - eps) ^ 4 * B \<le> x"
    using x_lo unfolding eq_lo by (simp only: L_def B_def i_def f_def)
  show "x \<le> jh * (1 + eps) ^ 4 * B"
    using x_hi unfolding eq_hi by (simp only: H_def B_def i_def f_def)
qed


text \<open>
  C5, as the code has it. At attempt 0 the delay is the initial delay. At attempt
  \<open>k \<ge> 1\<close>, with a jitter in [0.75, 1.25], a non-negative initial delay and factor, and
  \<^verbatim>\<open>double\<close> operations that round within the relative error \<open>eps\<close>, let
  \<open>base = initial * factor ^ k\<close>. When \<open>1.25 * (1 + eps) ^ 4 * base\<close> is below \<open>2 ^ 63\<close>
  the cast is defined and the delay, the jittered product cut to whole milliseconds and
  capped, is at most \<open>min (1.25 * (1 + eps) ^ 4 * base) max_delay\<close> and is either the
  maximum delay itself or above \<open>0.75 * (1 - eps) ^ 4 * base - 1\<close>. When
  \<open>0.75 * (1 - eps) ^ 4 * base\<close> has reached \<open>2 ^ 63\<close> the cast, and with it the call, is
  undefined.
\<close>

theorem get_delay_bounds:
  "(current_attempt p = 0 \<longrightarrow> get_delay D p jitter = Some (initial_delay p)) \<and>
   (1 \<le> current_attempt p \<and> 0.75 \<le> jitter \<and> jitter \<le> 1.25 \<and>
    0 \<le> initial_delay p \<and> 0 \<le> backoff_factor p \<and>
    0 \<le> eps \<and> eps \<le> 1 \<and> rounds_within eps D p jitter \<longrightarrow>
      (1.25 * (1 + eps) ^ 4 *
         (real_of_int (initial_delay p) * backoff_factor p ^ nat (current_attempt p)) < 2 ^ 63 \<longrightarrow>
         (\<exists>d. get_delay D p jitter = Some d \<and>
              real_of_int d \<le>
                min (1.25 * (1 + eps) ^ 4 *
                       (real_of_int (initial_delay p) * backoff_factor p ^ nat (current_attempt p)))
                    (real_of_int (max_delay p)) \<and>
              (d = max_delay p \<or>
               0.75 * (1 - eps) ^ 4 *
                 (real_of_int (initial_delay p) * backoff_factor p ^ nat (current_attempt p)) - 1
                 < real_of_int d))) \<and>
      (2 ^ 63 \<le> 0.75 * (1 - eps) ^ 4 *
         (real_of_int (initial_delay p) * backoff_factor p ^ nat (current_attempt p)) \<longrightarrow>
         get_delay D p jitter = None))"
proof (intro conjI impI)
  show "get_delay D p jitter = Some (initial_delay p)" if "current_attempt p = 0"
    using that by (simp add: get_delay_def)
next
  assume h: "1 \<le> current_attempt p \<and> 0.75 \<le> jitter \<and> jitter \<le> 1.25 \<and>
    0 \<le> initial_delay p \<and> 0 \<le> backoff_factor p \<and>
    0 \<le> eps \<and> eps \<le> 1 \<and> rounds_within eps D p jitter"
  define B where "B = real_of_int (initial_delay p) * backoff_factor p ^ nat (current_attempt p)"
  define x where "x = dmul D (dmul D (of_long_long D (initial_delay p))
                    (dpow D (backoff_factor p) (current_attempt p))) jitter"
  have lo: "0.75 * (1 - eps) ^ 4 * B \<le> x"
    using jittered_product_bounds(1) [of eps D p jitter "0.75" "1.25"] h
    by (simp add: B_def x_def)
  have hi: "x \<le> 1.25 * (1 + eps) ^ 4 * B"
    using jittered_product_bounds(2) [of eps D p jitter "0.75" "1.25"] h
    by (simp add: B_def x_def)
  have B0: "0 \<le> B" using h by (simp add: B_def)
  define lower where "lower = 0.75 * (1 - eps) ^ 4 * B"
  define upper where "upper = 1.25 * (1 + eps) ^ 4 * B"
  note lo = lo [folded lower_def] and hi = hi [folded upper_def]
  have "0 \<le> (1 - eps) ^ 4" using h by simp
  then have "0 \<le> lower" using B0 by (simp add: lower_def)
  then have x0: "0 \<le> x" using lo by (rule order_trans)
  have d: "get_delay D p jitter =
     (case to_long_long x of None \<Rightarrow> None
      | Some delay \<Rightarrow> Some (if delay > max_delay p then max_delay p else delay))"
    using h by (simp add: get_delay_def Let_def x_def)
  {
    assume "upper < 2 ^ 63"
    with hi have "x < 2 ^ 63" by (rule le_less_trans)
    with x0 obtain delay where delay: "to_long_long x = Some delay"
      "real_of_int delay \<le> x" "x - 1 < real_of_int delay"
      using to_long_long_in_range by blast
    let ?d = "if delay > max_delay p then max_delay p else delay"
    have "get_delay D p jitter = Some ?d" by (simp add: d delay(1))
    moreover have "real_of_int ?d \<le> min upper (real_of_int (max_delay p))"
    proof (cases "delay > max_delay p")
      case True
      then have "real_of_int (max_delay p) \<le> real_of_int delay" by simp
      with delay(2) hi True show ?thesis by simp
    next
      case False
      then have "real_of_int delay \<le> real_of_int (max_delay p)" by simp
      with delay(2) hi False show ?thesis by simp
    qed
    moreover have "?d = max_delay p \<or> lower - 1 < real_of_int ?d"
    proof (cases "delay > max_delay p")
      case True
      then show ?thesis by simp
    next
      case False
      from lo delay(3) have "lower - 1 < real_of_int delay" by linarith
      with False show ?thesis by simp
    qed
    ultimately have "\<exists>d. get_delay D p jitter = Some d \<and>
              real_of_int d \<le> min upper (real_of_int (max_delay p)) \<and>
              (d = max_delay p \<or> lower - 1 < real_of_int d)"
      by blast
  }
  then show "\<exists>d. get_delay D p jitter = Some d \<and>
              real_of_int d \<le>
                min (1.25 * (1 + eps) ^ 4 *
                       (real_of_int (initial_delay p) * backoff_factor p ^ nat (current_attempt p)))
                    (real_of_int (max_delay p)) \<and>
              (d = max_delay p \<or>
               0.75 * (1 - eps) ^ 4 *
                 (real_of_int (initial_delay p) * backoff_factor p ^ nat (current_attempt p)) - 1
                 < real_of_int d)"
    if "1.25 * (1 + eps) ^ 4 *
         (real_of_int (initial_delay p) * backoff_factor p ^ nat (current_attempt p)) < 2 ^ 63"
    using that unfolding lower_def upper_def B_def by blast
  show "get_delay D p jitter = None"
    if "2 ^ 63 \<le> 0.75 * (1 - eps) ^ 4 *
         (real_of_int (initial_delay p) * backoff_factor p ^ nat (current_attempt p))"
  proof -
    from that have "2 ^ 63 \<le> lower" unfolding lower_def B_def .
    then have "2 ^ 63 \<le> x" using lo by (rule order_trans)
    then have "to_long_long x = None" by (rule to_long_long_beyond)
    then show ?thesis by (simp add: d)
  qed
qed

lemmas delay_eval = get_delay_def to_long_long_def exact_arith_def policy_at_def policy_all_def
  power_int_def Let_def

text \<open>
  C5 as stated fails where the cap applies: with initial delay 100 ms, factor 2 and
  maximum 10000 ms, attempt 8 has \<open>0.75 * 100 * 2 ^ 8 = 19200\<close> but the delay is
  10000. No operation rounds at these operands.
\<close>

theorem get_delay_lower_bound_counterexample:
  "get_delay exact_arith (policy_at 8) 1 = Some 10000 \<and>
   real_of_int 10000 <
     0.75 * real_of_int (initial_delay (policy_at 8)) *
       backoff_factor (policy_at 8) ^ nat (current_attempt (policy_at 8))"
  by (simp add: delay_eval)

theorem get_delay_bounds_witness:
  "rounds_within 0 exact_arith (policy_at 2) 1 \<and>
   get_delay exact_arith (policy_at 2) 1 = Some 400 \<and>
   rounds_within 0 exact_arith (policy_at 57) 1 \<and>
   get_delay exact_arith (policy_at 57) 1 = None \<and>
   get_delay exact_arith (policy_at 0) 1 = Some 100"
  using get_delay_bounds [of "policy_at 2" exact_arith 1 0]
        get_delay_bounds [of "policy_at 57" exact_arith 1 0]
        get_delay_bounds [of "policy_at 0" exact_arith 1 0]
  by (simp add: delay_eval rounds_within_def)

subsection \<open>Response headers\<close>

lemma map_find_Some_mem: "map_find m k = Some v \<Longrightarrow> (k, v) \<in> set m"
  by (induction m) (auto split: if_splits)

lemma map_find_None_iff: "map_find m k = None \<longleftrightarrow> k \<notin> fst ` set m"
  by (induction m) (auto split: if_splits)

lemma map_find_mem:
  "map_inv m \<Longrightarrow> (k, v) \<in> set m \<Longrightarrow> map_find m k = Some v"
proof (induction m)
  case Nil
  then show ?case by simp
next
  case (Cons kv m)
  obtain k' v' where kv: "kv = (k', v')" by (cases kv)
  from Cons.prems(1) have inv: "map_inv m" and notin: "k' \<notin> fst ` set m"
    by (auto simp: map_inv_def kv)
  show ?case
  proof (cases "k = k'")
    case True
    with Cons.prems(2) notin kv have "v = v'" by force
    with True kv show ?thesis by simp
  next
    case False
    with Cons.prems(2) kv have "(k, v) \<in> set m" by auto
    with Cons.IH inv False kv show ?thesis by simp
  qed
qed

lemma letter_cases_forward:
  "(c, d) \<in> set letter_cases \<Longrightarrow>
   65 \<le> (of_char c :: nat) \<and> (of_char c :: nat) \<le> 90 \<and> (of_char d :: nat) = of_char c + 32"
  by (auto simp: letter_cases_def)

lemma letter_cases_all:
  "\<forall>n \<in> {65 ..< 91 :: nat}. (char_of n, char_of (n + 32)) \<in> set letter_cases"
  by code_simp


lemma letter_cases_iff:
  "(c, d) \<in> set letter_cases \<longleftrightarrow>
   65 \<le> (of_char c :: nat) \<and> (of_char c :: nat) \<le> 90 \<and> (of_char d :: nat) = of_char c + 32"
proof
  assume "(c, d) \<in> set letter_cases"
  then show "65 \<le> (of_char c :: nat) \<and> (of_char c :: nat) \<le> 90 \<and>
             (of_char d :: nat) = of_char c + 32"
    by (rule letter_cases_forward)
next
  assume h: "65 \<le> (of_char c :: nat) \<and> (of_char c :: nat) \<le> 90 \<and>
             (of_char d :: nat) = of_char c + 32"
  let ?n = "of_char c :: nat"
  have "?n \<in> {65 ..< 91}" using h by simp
  then have "(char_of ?n, char_of (?n + 32)) \<in> set letter_cases"
    using letter_cases_all by blast
  moreover have "char_of ?n = c" by simp
  moreover have "char_of (?n + 32) = d"
    using h by (metis char_of_char)
  ultimately show "(c, d) \<in> set letter_cases" by simp
qed

lemma of_char_tolower:
  "(of_char (tolower c) :: nat) =
     (if 65 \<le> (of_char c :: nat) \<and> (of_char c :: nat) \<le> 90 then of_char c + 32 else of_char c)"
  by (simp add: tolower_def Let_def)

lemma tolower_eq_iff: "tolower c = tolower d \<longleftrightarrow> same_letter c d"
proof -
  have "tolower c = tolower d \<longleftrightarrow> (of_char (tolower c) :: nat) = of_char (tolower d)"
    by simp
  also have "\<dots> \<longleftrightarrow> ((of_char c :: nat) = of_char d \<or>
      (65 \<le> (of_char c :: nat) \<and> (of_char c :: nat) \<le> 90 \<and> (of_char d :: nat) = of_char c + 32) \<or>
      (65 \<le> (of_char d :: nat) \<and> (of_char d :: nat) \<le> 90 \<and> (of_char c :: nat) = of_char d + 32))"
    unfolding of_char_tolower by (auto split: if_splits)
  also have "\<dots> \<longleftrightarrow> same_letter c d"
    by (simp add: same_letter_def letter_cases_iff)
  finally show ?thesis .
qed

lemma strcasecmp_impl_spec: "strcasecmp_impl a b \<longleftrightarrow> equal_ignoring_case a b"
proof -
  have "list_all2 (\<lambda>ca cb. tolower ca = tolower cb) a b \<Longrightarrow> length a = length b"
    by (rule list_all2_lengthD)
  then show ?thesis
    unfolding strcasecmp_impl_def equal_ignoring_case_def tolower_eq_iff by blast
qed

lemma equal_ignoring_case_refl: "equal_ignoring_case a a"
  by (simp add: equal_ignoring_case_def same_letter_def list_all2_same)

lemma strcasecmp_impl_refl: "strcasecmp_impl a a"
  by (simp add: strcasecmp_impl_spec equal_ignoring_case_refl)

lemma get_header_cases:
  assumes "map_inv (resp_headers r)"
  shows "((key, v) \<in> set (resp_headers r) \<longrightarrow> get_header r key = v) \<and>
         (key \<notin> fst ` set (resp_headers r) \<and>
          (\<exists>k \<in> fst ` set (resp_headers r). strcasecmp_impl k key) \<longrightarrow>
            (\<exists>(k, w) \<in> set (resp_headers r). strcasecmp_impl k key \<and> get_header r key = w)) \<and>
         ((\<forall>k \<in> fst ` set (resp_headers r). \<not> strcasecmp_impl k key) \<longrightarrow>
            get_header r key = [])"
proof (intro conjI impI)
  assume "(key, v) \<in> set (resp_headers r)"
  with assms have "map_find (resp_headers r) key = Some v"
    by (rule map_find_mem)
  then show "get_header r key = v"
    by (simp add: get_header_def)
next
  assume h: "key \<notin> fst ` set (resp_headers r) \<and>
          (\<exists>k \<in> fst ` set (resp_headers r). strcasecmp_impl k key)"
  then have none: "map_find (resp_headers r) key = None"
    by (simp add: map_find_None_iff)
  from h have "\<exists>x \<in> set (resp_headers r). (\<lambda>(k, v). strcasecmp_impl k key) x"
    by auto
  then obtain x where x: "find (\<lambda>(k, v). strcasecmp_impl k key) (resp_headers r) = Some x"
    by (metis find_None_iff not_Some_eq)
  obtain k w where kw: "x = (k, w)" by (cases x)
  from x have "x \<in> set (resp_headers r)" and "(\<lambda>(k, v). strcasecmp_impl k key) x"
    by (auto simp: find_Some_iff in_set_conv_nth)
  with kw have "(k, w) \<in> set (resp_headers r)" and "strcasecmp_impl k key" by auto
  moreover have "get_header r key = w"
    using none x kw by (simp add: get_header_def)
  ultimately show "\<exists>(k, w) \<in> set (resp_headers r). strcasecmp_impl k key \<and> get_header r key = w"
    by blast
next
  assume h: "\<forall>k \<in> fst ` set (resp_headers r). \<not> strcasecmp_impl k key"
  then have "key \<notin> fst ` set (resp_headers r)"
    using strcasecmp_impl_refl by blast
  then have none: "map_find (resp_headers r) key = None"
    by (simp add: map_find_None_iff)
  from h have "find (\<lambda>(k, v). strcasecmp_impl k key) (resp_headers r) = None"
    by (auto simp: find_None_iff)
  with none show "get_header r key = []"
    by (simp add: get_header_def)
qed

text \<open>
  C9. With the headers a \<^verbatim>\<open>std::map\<close> (strictly increasing keys),
  \<^verbatim>\<open>get_header\<close> returns the value stored under the key itself when the key is
  present; when it is absent and some header name matches it case-insensitively, the
  value of such a header; and the empty string when no header name matches it
  case-insensitively. \<^verbatim>\<open>strcasecmp_impl\<close> holds exactly of the names that match
  case-insensitively.
\<close>

theorem get_header_lookup:
  assumes "map_inv (resp_headers r)"
  shows "((key, v) \<in> set (resp_headers r) \<longrightarrow> get_header r key = v) \<and>
         (key \<notin> fst ` set (resp_headers r) \<and>
          (\<exists>k \<in> fst ` set (resp_headers r). equal_ignoring_case k key) \<longrightarrow>
            (\<exists>(k, w) \<in> set (resp_headers r).
               equal_ignoring_case k key \<and> get_header r key = w)) \<and>
         ((\<forall>k \<in> fst ` set (resp_headers r). \<not> equal_ignoring_case k key) \<longrightarrow>
            get_header r key = []) \<and>
         (strcasecmp_impl k' key \<longleftrightarrow> equal_ignoring_case k' key)"
  using get_header_cases [OF assms, of key v]
  by (simp only: strcasecmp_impl_spec) simp

lemma response_302_headers:
  "resp_headers response_302 = [(''Content-Type'', ''text/html''), (''location'', ''/new'')]"
  by (simp add: response_302_def add_header_def HttpResponse_init_def)

theorem get_header_lookup_witness:
  "map_inv (resp_headers response_302) \<and>
   get_header response_302 ''Content-Type'' = ''text/html'' \<and>
   get_header response_302 ''Location'' = ''/new'' \<and>
   get_header response_302 ''Server'' = []"
  using get_header_lookup [of response_302 "''Content-Type''" "''text/html''" "''x''"]
        get_header_lookup [of response_302 "''Location''" "[]" "''location''"]
        get_header_lookup [of response_302 "''Server''" "[]" "''x''"]
  by (simp add: response_302_headers map_inv_def equal_ignoring_case_def same_letter_def
        letter_cases_def strcasecmp_impl_def tolower_def char_of_def bit_Suc_0_iff)

subsection \<open>The request executor\<close>

lemma map_assign_last:
  "map_inv (m @ [(k, v)]) \<Longrightarrow> map_assign k v m = m @ [(k, v)]"
proof (induction m)
  case Nil
  then show ?case by simp
next
  case (Cons kv m)
  obtain k' v' where kv: "kv = (k', v')" by (cases kv)
  from Cons.prems have lt: "k' < k" and inv: "map_inv (m @ [(k, v)])"
    by (auto simp: map_inv_def kv sorted_wrt_append)
  from lt have "\<not> k < k'" and "k \<noteq> k'" by auto
  with Cons.IH inv kv show ?case by simp
qed

lemma map_inv_butlast: "map_inv (m @ xs) \<Longrightarrow> map_inv m"
  by (simp add: map_inv_def sorted_wrt_append)

lemma fold_req_add_header:
  "map_inv (req_headers r @ hs) \<Longrightarrow>
   fold (\<lambda>(key, val). req_add_header key val) hs r = r\<lparr>req_headers := req_headers r @ hs\<rparr>"
proof (induction hs arbitrary: r)
  case Nil
  then show ?case by simp
next
  case (Cons kv hs)
  obtain k v where kv: "kv = (k, v)" by (cases kv)
  from Cons.prems have inv1: "map_inv ((req_headers r @ [(k, v)]) @ hs)"
    by (simp add: kv)
  then have "map_inv (req_headers r @ [(k, v)])"
    by (rule map_inv_butlast)
  then have step: "req_add_header k v r = r\<lparr>req_headers := req_headers r @ [(k, v)]\<rparr>"
    by (simp add: req_add_header_def map_assign_last)
  have "fold (\<lambda>(key, val). req_add_header key val) hs (req_add_header k v r) =
        (req_add_header k v r)\<lparr>req_headers := req_headers (req_add_header k v r) @ hs\<rparr>"
    using inv1 by (intro Cons.IH) (simp add: step)
  then show ?case
    by (simp add: kv step)
qed

lemma execute_with_redirects_follow:
  assumes "parse_url net (req_url request) = Inr url_info"
    and "(if is_https url_info then execute_https net st request url_info
          else execute_http net st request url_info) = (Inr response, st1)"
    and "follow_redirects config" "redirect_count < max_redirects config"
    and "300 \<le> status_code response" "status_code response < 400"
    and "get_header response ''Location'' \<noteq> []"
  shows "execute_with_redirects config net st request redirect_count =
     (case execute_with_redirects config net st1
             (redirect_request request
                (redirect_location url_info (get_header response ''Location'')))
             (redirect_count + 1) of
        (Inl e, st2) \<Rightarrow> (Inl e, st2)
      | (Inr redirect_resp, st2) \<Rightarrow>
          (Inr (fold add_redirect
                  (redirect_chain (add_redirect (get_header response ''Location'') response))
                  redirect_resp),
           st2))"
  using assms by (subst execute_with_redirects.simps) simp

lemma execute_with_redirects_stop:
  assumes "parse_url net (req_url request) = Inr url_info"
    and "(if is_https url_info then execute_https net st request url_info
          else execute_http net st request url_info) = (Inr response, st1)"
    and "\<not> follow_redirects config \<or> max_redirects config \<le> redirect_count \<or>
         status_code response < 300 \<or> 400 \<le> status_code response \<or>
         get_header response ''Location'' = []"
  shows "execute_with_redirects config net st request redirect_count = (Inr response, st1)"
  using assms by (subst execute_with_redirects.simps) auto

lemma execute_with_redirects_bad_url:
  "parse_url net (req_url request) = Inl e \<Longrightarrow>
   execute_with_redirects config net st request redirect_count = (Inl e, st)"
  by (subst execute_with_redirects.simps) simp

lemma execute_with_redirects_throw:
  assumes "parse_url net (req_url request) = Inr url_info"
    and "(if is_https url_info then execute_https net st request url_info
          else execute_http net st request url_info) = (Inl e, st1)"
  shows "execute_with_redirects config net st request redirect_count = (Inl e, st1)"
  using assms by (subst execute_with_redirects.simps) simp

lemma execute_http_sockets:
  "sockets_opened (snd (execute_http net st request url_info)) =
     sockets_opened st + (if fst (resolve net (world st) url_info) = None then 1 else 0)"
  by (simp add: execute_http_def split: prod.splits option.splits)

lemma execute_https_sockets:
  "sockets_opened (snd (execute_https net st request url_info)) =
     sockets_opened st + (if fst (resolve net (world st) url_info) = None then 1 else 0)"
  by (simp add: execute_https_def split: prod.splits option.splits)

lemma attempt_sockets:
  "(if is_https url_info then execute_https net st request url_info
    else execute_http net st request url_info) = (r, st1) \<Longrightarrow>
   sockets_opened st1 =
     sockets_opened st + (if fst (resolve net (world st) url_info) = None then 1 else 0)"
  using execute_http_sockets [of net st request url_info]
        execute_https_sockets [of net st request url_info]
  by (auto split: if_splits)

lemma execute_with_redirects_mono:
  "sockets_opened st \<le>
     sockets_opened (snd (execute_with_redirects config net st request redirect_count))"
proof (induction "nat (max_redirects config - redirect_count)"
       arbitrary: st request redirect_count rule: less_induct)
  case less
  show ?case
  proof (cases "parse_url net (req_url request)")
    case (Inl e)
    then show ?thesis by (simp add: execute_with_redirects_bad_url)
  next
    case (Inr url_info)
    obtain r st1 where att: "(if is_https url_info then execute_https net st request url_info
          else execute_http net st request url_info) = (r, st1)"
      by (cases "if is_https url_info then execute_https net st request url_info
          else execute_http net st request url_info") auto
    have le1: "sockets_opened st \<le> sockets_opened st1"
      using attempt_sockets [OF att] by simp
    show ?thesis
    proof (cases r)
      case (Inl e)
      with Inr att le1 show ?thesis by (simp add: execute_with_redirects_throw)
    next
      case r: (Inr response)
      show ?thesis
      proof (cases "follow_redirects config \<and> redirect_count < max_redirects config \<and>
                    300 \<le> status_code response \<and> status_code response < 400 \<and>
                    get_header response ''Location'' \<noteq> []")
        case False
        then have "execute_with_redirects config net st request redirect_count = (Inr response, st1)"
          using Inr att r by (intro execute_with_redirects_stop) auto
        with le1 show ?thesis by simp
      next
        case True
        let ?next = "execute_with_redirects config net st1
             (redirect_request request
                (redirect_location url_info (get_header response ''Location'')))
             (redirect_count + 1)"
        have "sockets_opened st1 \<le> sockets_opened (snd ?next)"
          using True by (intro less) auto
        moreover have "snd (execute_with_redirects config net st request redirect_count) = snd ?next"
          using True Inr att r
          by (simp add: execute_with_redirects_follow split: prod.splits sum.splits)
        ultimately show ?thesis using le1 by simp
      qed
    qed
  qed
qed

lemma execute_sockets_ge:
  assumes "parse_url net (req_url request) = Inr url_info"
    and "\<forall>w. fst (resolve net w url_info) = None"
  shows "sockets_opened st + 1 \<le> sockets_opened (snd (execute config net st request))"
proof -
  obtain r st1 where att: "(if is_https url_info then execute_https net st request url_info
        else execute_http net st request url_info) = (r, st1)"
    by (cases "if is_https url_info then execute_https net st request url_info
        else execute_http net st request url_info") auto
  have eq1: "sockets_opened st1 = sockets_opened st + 1"
    using attempt_sockets [OF att] assms(2) by simp
  show ?thesis
  proof (cases r)
    case (Inl e)
    with assms att eq1 show ?thesis by (simp add: execute_def execute_with_redirects_throw)
  next
    case r: (Inr response)
    show ?thesis
    proof (cases "follow_redirects config \<and> 0 < max_redirects config \<and>
                  300 \<le> status_code response \<and> status_code response < 400 \<and>
                  get_header response ''Location'' \<noteq> []")
      case False
      then have "execute_with_redirects config net st request 0 = (Inr response, st1)"
        using assms(1) att r by (intro execute_with_redirects_stop) auto
      with eq1 show ?thesis by (simp add: execute_def)
    next
      case True
      let ?next = "execute_with_redirects config net st1
           (redirect_request request
              (redirect_location url_info (get_header response ''Location'')))
           (0 + 1)"
      have "sockets_opened st1 \<le> sockets_opened (snd ?next)"
        by (rule execute_with_redirects_mono)
      moreover have "snd (execute_with_redirects config net st request 0) = snd ?next"
        using True assms(1) att r
        by (simp add: execute_with_redirects_follow split: prod.splits sum.splits)
      ultimately show ?thesis using eq1 by (simp add: execute_def)
    qed
  qed
qed

lemma execute_sockets_eq:
  assumes "parse_url net (req_url request) = Inr url_info"
    and "\<forall>w. fst (resolve net w url_info) = None"
    and "\<not> follow_redirects config"
  shows "sockets_opened (snd (execute config net st request)) = sockets_opened st + 1"
proof -
  obtain r st1 where att: "(if is_https url_info then execute_https net st request url_info
        else execute_http net st request url_info) = (r, st1)"
    by (cases "if is_https url_info then execute_https net st request url_info
        else execute_http net st request url_info") auto
  have eq1: "sockets_opened st1 = sockets_opened st + 1"
    using attempt_sockets [OF att] assms(2) by simp
  show ?thesis
  proof (cases r)
    case (Inl e)
    with assms att eq1 show ?thesis by (simp add: execute_def execute_with_redirects_throw)
  next
    case r: (Inr response)
    have "execute_with_redirects config net st request 0 = (Inr response, st1)"
      using assms att r by (intro execute_with_redirects_stop) auto
    with eq1 show ?thesis by (simp add: execute_def)
  qed
qed

text \<open>
  C1, as the code has it. \<^verbatim>\<open>execute_http\<close> and \<^verbatim>\<open>execute_https\<close> construct a
  socket of their own in every call and the client keeps none: a sequence of reachable
  requests opens at least one socket per request, and exactly one per request when
  redirects are not followed.
\<close>

theorem execute_all_sockets:
  assumes "\<forall>request \<in> set requests. reachable net request"
  shows "sockets_opened st + length requests \<le>
           sockets_opened (snd (execute_all config net st requests)) \<and>
         (\<not> follow_redirects config \<longrightarrow>
            sockets_opened (snd (execute_all config net st requests)) =
              sockets_opened st + length requests)"
  using assms
proof (induction requests arbitrary: st)
  case Nil
  then show ?case by simp
next
  case (Cons request requests)
  obtain r st1 where ex: "execute config net st request = (r, st1)"
    by (cases "execute config net st request") auto
  from Cons.prems obtain url_info where
    url: "parse_url net (req_url request) = Inr url_info" and
    res: "\<forall>w. fst (resolve net w url_info) = None"
    by (auto simp: reachable_def split: sum.splits)
  have ge: "sockets_opened st + 1 \<le> sockets_opened st1"
    using execute_sockets_ge [OF url res, of st config] ex by simp
  have eq: "\<not> follow_redirects config \<Longrightarrow> sockets_opened st1 = sockets_opened st + 1"
    using execute_sockets_eq [OF url res, of config st] ex by simp
  have ih: "sockets_opened st1 + length requests \<le>
           sockets_opened (snd (execute_all config net st1 requests)) \<and>
         (\<not> follow_redirects config \<longrightarrow>
            sockets_opened (snd (execute_all config net st1 requests)) =
              sockets_opened st1 + length requests)"
    using Cons.prems by (intro Cons.IH) simp
  have "snd (execute_all config net st (request # requests)) =
        snd (execute_all config net st1 requests)"
    using ex by (simp split: prod.splits)
  with ge eq ih show ?case by auto
qed

lemma get_header_response_302: "get_header response_302 ''Location'' = ''/new''"
  by (simp add: get_header_def response_302_headers strcasecmp_impl_def tolower_def
        char_of_def bit_Suc_0_iff)

lemma response_302_fields:
  "status_code response_302 = 302" "redirect_chain response_302 = []"
  by (simp_all add: response_302_def add_header_def HttpResponse_init_def)

lemmas example_defs = origin_net_def steady_net_def looping_net_def moved_net_def parse_url_a_def
  HttpRequest_new_def fresh_client_def get_request_def old_request_def old_url_info_def
  default_config_def no_redirect_config_def one_redirect_config_def response_200_def
  HttpResponse_init_def

lemmas executor_eval = example_defs response_302_fields get_header_response_302 execute_def
  execute_with_redirects.simps execute_http_def execute_https_def redirect_location_def
  redirect_request_def add_redirect_def

text \<open>
  C1 as stated fails: ten sequential requests to one origin open ten sockets, with five
  connections per host configured.
\<close>

theorem ten_requests_ten_sockets_counterexample:
  "\<not> sockets_opened
       (snd (execute_all default_config steady_net fresh_client (replicate 10 get_request)))
     \<le> max_connections_per_host default_config"
  by (simp add: executor_eval numeral_eq_Suc)

theorem execute_all_sockets_witness:
  "reachable steady_net get_request \<and>
   sockets_opened
     (snd (execute_all no_redirect_config steady_net fresh_client (replicate 10 get_request)))
   = 10"
  using execute_all_sockets
          [of "replicate 10 get_request" steady_net fresh_client no_redirect_config]
  by (simp add: reachable_def example_defs)

text \<open>
  C3, as the code has it. Once the redirect count has reached \<^verbatim>\<open>max_redirects\<close> the
  response just received is returned as it is, also when it is a 3xx with a
  \<^verbatim>\<open>Location\<close>: no error is raised.
\<close>

theorem execute_at_redirect_limit:
  assumes "parse_url net (req_url request) = Inr url_info"
    and "(if is_https url_info then execute_https net st request url_info
          else execute_http net st request url_info) = (Inr response, st1)"
    and "max_redirects config \<le> redirect_count"
  shows "execute_with_redirects config net st request redirect_count = (Inr response, st1)"
  using assms by (intro execute_with_redirects_stop) auto

text \<open>
  C3 as stated fails: with \<^verbatim>\<open>max_redirects = 1\<close> and a server that always redirects,
  \<^verbatim>\<open>execute\<close> follows one hop and returns the second 302 response.
\<close>

theorem redirect_limit_counterexample:
  "fst (execute one_redirect_config looping_net fresh_client old_request) =
     Inr (response_302\<lparr>redirect_chain := [''/new'']\<rparr>)"
  by (simp add: executor_eval)

theorem execute_at_redirect_limit_witness:
  "execute_with_redirects one_redirect_config looping_net fresh_client old_request 1 =
     (Inr response_302, \<lparr>world = [GET], sockets_opened = 1\<rparr>)"
  using execute_at_redirect_limit
          [of looping_net old_request old_url_info fresh_client response_302
              "\<lparr>world = [GET], sockets_opened = 1\<rparr>" one_redirect_config 1]
  by (simp add: execute_http_def example_defs)

text \<open>
  C4, as the code has it. When a redirect is followed, the follow-up request has method
  GET whatever the method of the original request, the completed \<^verbatim>\<open>Location\<close> as
  its URL, exactly the headers of the original request, and no body.
\<close>

theorem redirect_follow_up_request:
  assumes "map_inv (req_headers request)"
    and "parse_url net (req_url request) = Inr url_info"
    and "(if is_https url_info then execute_https net st request url_info
          else execute_http net st request url_info) = (Inr response, st1)"
    and "follow_redirects config" "redirect_count < max_redirects config"
    and "300 \<le> status_code response" "status_code response < 400"
    and "get_header response ''Location'' \<noteq> []"
  shows "execute_with_redirects config net st request redirect_count =
     (case execute_with_redirects config net st1
             \<lparr>req_method = GET,
              req_url = redirect_location url_info (get_header response ''Location''),
              req_headers = req_headers request,
              req_body = []\<rparr>
             (redirect_count + 1) of
        (Inl e, st2) \<Rightarrow> (Inl e, st2)
      | (Inr redirect_resp, st2) \<Rightarrow>
          (Inr (fold add_redirect
                  (redirect_chain (add_redirect (get_header response ''Location'') response))
                  redirect_resp),
           st2))"
proof -
  have "redirect_request request (redirect_location url_info (get_header response ''Location'')) =
        \<lparr>req_method = GET,
         req_url = redirect_location url_info (get_header response ''Location''),
         req_headers = req_headers request,
         req_body = []\<rparr>"
    using fold_req_add_header [of "HttpRequest_new GET
            (redirect_location url_info (get_header response ''Location''))" "req_headers request"]
          assms(1)
    by (simp add: redirect_request_def HttpRequest_new_def)
  with execute_with_redirects_follow [OF assms(2-8)] show ?thesis by simp
qed

text \<open>
  C4 as stated fails for HEAD: the server sees the redirected HEAD request followed by a
  GET request.
\<close>

theorem redirect_head_becomes_get_counterexample:
  "world (snd (execute default_config moved_net fresh_client head_request)) =
     [HEAD, GET]"
  by (simp add: executor_eval head_request_def req_add_header_def)

theorem redirect_follow_up_request_witness:
  "map_inv (req_headers head_request) \<and>
   execute_with_redirects default_config moved_net fresh_client head_request 0 =
     (Inr (response_200\<lparr>redirect_chain := [''/new'']\<rparr>),
      \<lparr>world = [HEAD, GET], sockets_opened = 2\<rparr>)"
  using redirect_follow_up_request
          [of head_request moved_net old_url_info fresh_client response_302
              "\<lparr>world = [HEAD], sockets_opened = 1\<rparr>" default_config 0]
  by (simp add: executor_eval head_request_def req_add_header_def map_inv_def)

end
